theory Spec2Isabelle
  imports Main "HOL-Library.Word"
begin

section \<open>Strings of the host language\<close>

text \<open>
  A string of the program is a sequence of 16-bit code units.  The patterns of
  \<^verbatim>\<open>src/settings.ts\<close> carry no \<^verbatim>\<open>u\<close> flag, so they are matched code unit by code unit.
\<close>

type_synonym jsstring = "16 word list"

definition cu :: "char \<Rightarrow> 16 word" where
  "cu c = of_char c"

definition js :: "string \<Rightarrow> jsstring" where
  "js s = map cu s"

text \<open>
  The class \<^verbatim>\<open>\s\<close> and \<^verbatim>\<open>String.prototype.trim\<close> use the same set: the white space
  code points (TAB, VT, FF, SP, NBSP, ZWNBSP and the space separators) and the line
  terminators (LF, CR, LS, PS).
\<close>

definition is_space :: "16 word \<Rightarrow> bool" where
  "is_space c \<longleftrightarrow>
     (0x9 \<le> c \<and> c \<le> 0xD) \<or> c = 0x20 \<or> c = 0xA0 \<or> c = 0x1680 \<or>
     (0x2000 \<le> c \<and> c \<le> 0x200A) \<or> c = 0x2028 \<or> c = 0x2029 \<or> c = 0x202F \<or>
     c = 0x205F \<or> c = 0x3000 \<or> c = 0xFEFF"

definition trim :: "jsstring \<Rightarrow> jsstring" where
  "trim s = rev (dropWhile is_space (rev (dropWhile is_space s)))"

text \<open>
  Case folding of the \<^verbatim>\<open>i\<close> flag (without \<^verbatim>\<open>u\<close>): a code unit is compared through
  its upper-case form, and a code unit from 128 on never folds to one below 128.  Every
  literal character and every range of the patterns of this program is ASCII, and the white
  space code units have no case, so the folding is written out on ASCII only; code units
  from 128 on are left as they are.
\<close>

definition to_upper :: "16 word \<Rightarrow> 16 word" where
  "to_upper c = (if 0x61 \<le> c \<and> c \<le> 0x7A then c - 0x20 else c)"

definition to_lower :: "16 word \<Rightarrow> 16 word" where
  "to_lower c = (if 0x41 \<le> c \<and> c \<le> 0x5A then c + 0x20 else c)"

definition canon :: "bool \<Rightarrow> 16 word \<Rightarrow> 16 word" where
  "canon ic c = (if ic then to_upper c else c)"

definition variants :: "bool \<Rightarrow> 16 word \<Rightarrow> 16 word list" where
  "variants ic c = (if ic then [c, to_upper c, to_lower c] else [c])"

section \<open>Regular expressions as the patterns use them\<close>

text \<open>
  The syntax tree covers what the five patterns of \<^verbatim>\<open>DEFAULT_SETTINGS\<close> are built from:
  literal characters, character classes (possibly negated, with ranges and \<^verbatim>\<open>\s\<close>),
  greedy quantifiers on a single character or class (\<^verbatim>\<open>?\<close>, \<^verbatim>\<open>*\<close>, \<^verbatim>\<open>+\<close>, \<^verbatim>\<open>{2,}\<close>),
  sequences, alternatives, numbered capturing groups, the negative lookahead
  \<^verbatim>\<open>(?!...)\<close> and the anchors \<^verbatim>\<open>^\<close> and \<^verbatim>\<open>$\<close>.
\<close>

datatype cls_item = Single char | Range char char | WhiteSpace

datatype atom = Chr char | Cls bool "cls_item list"

datatype rx =
    Atom atom
  | Rep atom nat "nat option"
  | Cat "rx list"
  | Alt "rx list"
  | Grp nat rx
  | NLook rx
  | Bol
  | Eol

record regexp =
  pattern :: rx
  groups :: nat
  ignoreCase :: bool
  global :: bool

fun item_has :: "cls_item \<Rightarrow> 16 word \<Rightarrow> bool" where
  "item_has (Single p) c = (c = cu p)"
| "item_has (Range a b) c = (cu a \<le> c \<and> c \<le> cu b)"
| "item_has WhiteSpace c = is_space c"

fun am :: "bool \<Rightarrow> atom \<Rightarrow> 16 word \<Rightarrow> bool" where
  "am ic (Chr p) c = (canon ic (cu p) = canon ic c)"
| "am ic (Cls neg items) c =
     (neg \<noteq> list_ex (\<lambda>i. list_ex (item_has i) (variants ic c)) items)"

text \<open>
  A matcher state: the index reached in the input, the input from there on, and the
  captures of the groups 1, 2, ... so far (\<open>None\<close> is \<^verbatim>\<open>undefined\<close>).
\<close>

type_synonym mstate = "nat \<times> jsstring \<times> jsstring option list"

text \<open>
  The backtracking matcher returns the states in which a pattern can end, in the order in
  which the engine tries them: in a sequence the choices of an earlier part vary slowest,
  alternatives are tried from the left, a greedy quantifier tries the longest run first.
\<close>

definition rep_states :: "bool \<Rightarrow> atom \<Rightarrow> nat \<Rightarrow> nat option \<Rightarrow> mstate \<Rightarrow> mstate list" where
  "rep_states ic a lo hi st =
     (case st of (i, s, cs) \<Rightarrow>
        let run = length (takeWhile (am ic a) s);
            top = (case hi of None \<Rightarrow> run | Some h \<Rightarrow> min h run)
        in map (\<lambda>k. (i + k, drop k s, cs)) (rev [lo ..< Suc top]))"

primrec cat_all :: "(mstate \<Rightarrow> mstate list) list \<Rightarrow> mstate \<Rightarrow> mstate list" where
  "cat_all [] st = [st]"
| "cat_all (f # fs) st = concat (map (cat_all fs) (f st))"

primrec alt_all :: "(mstate \<Rightarrow> mstate list) list \<Rightarrow> mstate \<Rightarrow> mstate list" where
  "alt_all [] st = []"
| "alt_all (f # fs) st = f st @ alt_all fs st"

primrec ms :: "bool \<Rightarrow> rx \<Rightarrow> mstate \<Rightarrow> mstate list" where
  "ms ic (Atom a) st =
     (case st of (i, s, cs) \<Rightarrow>
        (case s of [] \<Rightarrow> [] | c # s' \<Rightarrow> if am ic a c then [(Suc i, s', cs)] else []))"
| "ms ic (Rep a lo hi) st = rep_states ic a lo hi st"
| "ms ic (Cat rs) st = cat_all (map (ms ic) rs) st"
| "ms ic (Alt rs) st = alt_all (map (ms ic) rs) st"
| "ms ic (Grp k r) st =
     (case st of (i, s, cs) \<Rightarrow>
        map (\<lambda>(j, s', cs'). (j, s', cs'[k - 1 := Some (take (j - i) s)])) (ms ic r st))"
| "ms ic (NLook r) st = (if ms ic r st = [] then [st] else [])"
| "ms ic Bol st = (case st of (i, s, cs) \<Rightarrow> if i = 0 then [st] else [])"
| "ms ic Eol st = (case st of (i, s, cs) \<Rightarrow> if s = [] then [st] else [])"

text \<open>
  \<^verbatim>\<open>RegExp.prototype.exec\<close> on a fresh pattern object: the start index goes from 0 up to
  the length of the input, and the first index at which the matcher succeeds gives the
  match, with the matcher's first choice.  The result array holds the matched text and
  then one entry for each group; \<open>None\<close> is \<^verbatim>\<open>null\<close>.
\<close>

fun search :: "regexp \<Rightarrow> nat \<Rightarrow> jsstring \<Rightarrow> (nat \<times> jsstring \<times> mstate) option" where
  "search re i [] =
     (case ms (ignoreCase re) (pattern re) (i, [], replicate (groups re) None) of
        e # es \<Rightarrow> Some (i, [], e)
      | [] \<Rightarrow> None)"
| "search re i (c # s') =
     (case ms (ignoreCase re) (pattern re) (i, c # s', replicate (groups re) None) of
        e # es \<Rightarrow> Some (i, c # s', e)
      | [] \<Rightarrow> search re (Suc i) s')"

definition exec :: "regexp \<Rightarrow> jsstring \<Rightarrow> jsstring option list option" where
  "exec re s =
     (case search re 0 s of
        None \<Rightarrow> None
      | Some (i, t, (j, t', cs)) \<Rightarrow> Some (Some (take (j - i) t) # cs))"

definition test :: "regexp \<Rightarrow> jsstring \<Rightarrow> bool" where
  "test re s = (exec re s \<noteq> None)"



text \<open>
  A global scan (\<^verbatim>\<open>String.prototype.match\<close> with the \<^verbatim>\<open>g\<close> flag): the matched texts
  from left to right.  \<open>i\<close> is the index of the first code unit of \<open>s\<close>; \<open>lastIndex\<close>
  is where the next attempt may start: the end of the previous match, or one code unit
  further when that match was empty.  The empty list stands for \<^verbatim>\<open>null\<close>.
\<close>

fun scan :: "regexp \<Rightarrow> nat \<Rightarrow> nat \<Rightarrow> jsstring \<Rightarrow> jsstring list" where
  "scan re i lastIndex [] =
     (if i < lastIndex then []
      else
        (case ms (ignoreCase re) (pattern re) (i, [], replicate (groups re) None) of
           [] \<Rightarrow> []
         | (j, t, cs) # es \<Rightarrow> [[]]))"
| "scan re i lastIndex (c # s') =
     (if i < lastIndex then scan re (Suc i) lastIndex s'
      else
        (case ms (ignoreCase re) (pattern re) (i, c # s', replicate (groups re) None) of
           [] \<Rightarrow> scan re (Suc i) (Suc i) s'
         | (j, t, cs) # es \<Rightarrow>
             take (j - i) (c # s') # scan re (Suc i) (if j = i then Suc i else j) s'))"

text \<open>
  Modelled from the spec: the code that scans a line with \<^verbatim>\<open>lineRegex\<close> is not among the
  sources; the spec has the line-scan variant discover the URLs within free text, which is
  the global scan from index 0.
\<close>

definition match_all :: "regexp \<Rightarrow> jsstring \<Rightarrow> jsstring list" where
  "match_all re s = scan re 0 0 s"

section \<open>The patterns of DEFAULT_SETTINGS\<close>

text \<open>
  \<^verbatim>\<open>src/settings.ts\<close>, lines 15 to 27.  The four URL patterns contain the same
  parenthesised alternation of four branches, character for character; it is written once,
  with the number its capturing group has in the pattern at hand.
\<close>

definition lit :: "string \<Rightarrow> rx list" where
  "lit s = map (\<lambda>c. Atom (Chr c)) s"

definition alnum :: atom where
  "alnum = Cls False [Range CHR ''a'' CHR ''z'', Range CHR ''A'' CHR ''Z'', Range CHR ''0'' CHR ''9'']"

definition alnum_hyphen :: atom where
  "alnum_hyphen =
     Cls False [Range CHR ''a'' CHR ''z'', Range CHR ''A'' CHR ''Z'', Range CHR ''0'' CHR ''9'',
                Single CHR ''-'']"

definition non_space :: atom where
  "non_space = Cls True [WhiteSpace]"

definition scheme :: "rx list" where
  "scheme = lit ''http'' @ [Rep (Chr CHR ''s'') 0 (Some 1)] @ lit ''://''"

definition www_or_not :: rx where
  "www_or_not = Alt [Cat (lit ''www.''), NLook (Cat (lit ''www''))]"

definition long_label :: "rx list" where
  "long_label = [Atom alnum, Rep alnum_hyphen 1 None, Atom alnum]"

definition tail :: "rx list" where
  "tail = [Atom (Chr CHR ''.''), Rep non_space 2 None]"

definition url_alts :: "rx list" where
  "url_alts =
     [Cat (scheme @ [www_or_not] @ long_label @ tail),
      Cat (lit ''www.'' @ long_label @ tail),
      Cat (scheme @ [www_or_not] @ [Rep alnum 1 None] @ tail),
      Cat (lit ''www.'' @ [Rep alnum 1 None] @ tail)]"

definition url_group :: "nat \<Rightarrow> rx" where
  "url_group k = Grp k (Alt url_alts)"

definition label_group :: rx where
  "label_group = Grp 1 (Rep (Cls True [Single CHR ''['', Single CHR '']'']) 0 None)"

definition url_regex :: regexp where
  "url_regex = \<lparr>pattern = Cat [Bol, url_group 1, Eol],
                 groups = 1, ignoreCase = True, global = False\<rparr>"

definition url_lineRegex :: regexp where
  "url_lineRegex = \<lparr>pattern = url_group 1,
                     groups = 1, ignoreCase = True, global = True\<rparr>"

definition url_linkRegex :: regexp where
  "url_linkRegex =
     \<lparr>pattern = Cat ([Bol, Atom (Chr CHR ''[''), label_group] @ lit ''](''
                       @ [url_group 2, Atom (Chr CHR '')''), Eol]),
      groups = 2, ignoreCase = True, global = False\<rparr>"

definition url_linkLineRegex :: regexp where
  "url_linkLineRegex =
     \<lparr>pattern = Cat ([Atom (Chr CHR ''[''), label_group] @ lit ''](''
                       @ [url_group 2, Atom (Chr CHR '')'')]),
      groups = 2, ignoreCase = True, global = True\<rparr>"

definition image_exts :: "rx list" where
  "image_exts =
     [Cat (lit ''gif''),
      Cat (lit ''jp'' @ [Rep (Chr CHR ''e'') 0 (Some 1)] @ lit ''g''),
      Cat (lit ''tif'' @ [Rep (Chr CHR ''f'') 0 (Some 1)]),
      Cat (lit ''png''), Cat (lit ''webp''), Cat (lit ''bmp''), Cat (lit ''tga''),
      Cat (lit ''psd''), Cat (lit ''ai'')]"

definition url_imageRegex :: regexp where
  "url_imageRegex =
     \<lparr>pattern = Cat [Atom (Chr CHR ''.''), Grp 1 (Alt image_exts), Eol],
      groups = 1, ignoreCase = True, global = False\<rparr>"

record ObsidianAutoCardLinkSettings =
  regex :: regexp
  lineRegex :: regexp
  linkRegex :: regexp
  linkLineRegex :: regexp
  imageRegex :: regexp
  showInMenuItem :: bool
  enhanceDefaultPaste :: bool

definition DEFAULT_SETTINGS :: ObsidianAutoCardLinkSettings where
  "DEFAULT_SETTINGS =
     \<lparr>regex = url_regex, lineRegex = url_lineRegex, linkRegex = url_linkRegex,
      linkLineRegex = url_linkLineRegex, imageRegex = url_imageRegex,
      showInMenuItem = True, enhanceDefaultPaste = True\<rparr>"

section \<open>The classifier\<close>

text \<open>
  The module \<^verbatim>\<open>src/checkif\<close> is imported by \<^verbatim>\<open>main.ts\<close> and is not among the sources.
  Its three predicates are modelled from the specification, on the patterns of
  \<^verbatim>\<open>DEFAULT_SETTINGS\<close>.
\<close>

text \<open>
  Modelled from the spec: \<^verbatim>\<open>CheckIf.isUrl\<close> (\<^verbatim>\<open>src/checkif\<close>, missing) is true iff the
  entire trimmed string matches the anchored bare-URL pattern.
\<close>

definition CheckIf_isUrl :: "jsstring \<Rightarrow> bool" where
  "CheckIf_isUrl text = test (regex DEFAULT_SETTINGS) (trim text)"

text \<open>
  Modelled from the spec: \<^verbatim>\<open>CheckIf.isLinkedUrl\<close> (\<^verbatim>\<open>src/checkif\<close>, missing) is true iff
  the entire trimmed string matches the anchored link pattern.
\<close>

definition CheckIf_isLinkedUrl :: "jsstring \<Rightarrow> bool" where
  "CheckIf_isLinkedUrl text = test (linkRegex DEFAULT_SETTINGS) (trim text)"

text \<open>
  Modelled from the spec: \<^verbatim>\<open>CheckIf.isImage\<close> (\<^verbatim>\<open>src/checkif\<close>, missing) is true iff the
  string's path ends in an image extension.  The predicate is handed a string and nothing
  parsed from it: the path is the string as given, untrimmed, and its end is where the
  image pattern of \<^verbatim>\<open>DEFAULT_SETTINGS\<close>, anchored by \<^verbatim>\<open>$\<close>, looks for the extension.
\<close>

definition CheckIf_isImage :: "jsstring \<Rightarrow> bool" where
  "CheckIf_isImage text = test (imageRegex DEFAULT_SETTINGS) text"




text \<open>
  The handlers of \<^verbatim>\<open>main.ts\<close> are stated for any classifier, so that what is proved of
  them does not rest on the model above.
\<close>

record checkif =
  isUrl :: "jsstring \<Rightarrow> bool"
  isLinkedUrl :: "jsstring \<Rightarrow> bool"
  isImage :: "jsstring \<Rightarrow> bool"

definition CheckIf :: checkif where
  "CheckIf = \<lparr>isUrl = CheckIf_isUrl, isLinkedUrl = CheckIf_isLinkedUrl, isImage = CheckIf_isImage\<rparr>"

section \<open>main.ts\<close>

text \<open>
  \<^verbatim>\<open>getUrlFromLink\<close> (lines 174 to 181).  The pattern comes from \<^verbatim>\<open>src/regex\<close>, which is
  not among the sources, so it is a parameter.  The result is \<open>None\<close> where the program
  returns \<^verbatim>\<open>undefined\<close>: an index past the end of the array, or a group that took no part
  in the match.
\<close>

definition getUrlFromLink :: "regexp \<Rightarrow> jsstring \<Rightarrow> jsstring option" where
  "getUrlFromLink urlRegex link =
     (case exec urlRegex link of
        None \<Rightarrow> Some []
      | Some regExpExecArray \<Rightarrow>
          if length regExpExecArray < 2 then Some []
          else if 2 < length regExpExecArray then regExpExecArray ! 2 else None)"

text \<open>
  What a handler does is the list of the calls it makes on its collaborators (the editor,
  the code block generator, the paste event), in order.  None of them is among the sources.
\<close>

datatype call =
    NewCodeBlockGenerator
  | ConvertUrlToCodeBlock "jsstring option"
  | ReplaceSelection jsstring
  | StopPropagation
  | PreventDefault

text \<open>
  \<^verbatim>\<open>enhanceSelectedURL\<close> (lines 60 to 73).  \<open>selected\<close> is what
  \<^verbatim>\<open>EditorExtensions.getSelectedText\<close> returns (\<open>None\<close> for \<^verbatim>\<open>undefined\<close>).
\<close>

definition enhanceSelectedURL :: "checkif \<Rightarrow> regexp \<Rightarrow> jsstring option \<Rightarrow> call list" where
  "enhanceSelectedURL ck urlRegex selected =
     (let selectedText = trim (case selected of None \<Rightarrow> [] | Some t \<Rightarrow> t) in
      NewCodeBlockGenerator #
      (if isUrl ck selectedText then [ConvertUrlToCodeBlock (Some selectedText)]
       else if isLinkedUrl ck selectedText
         then [ConvertUrlToCodeBlock (getUrlFromLink urlRegex selectedText)]
       else []))"

text \<open>
  \<^verbatim>\<open>manualPasteAndEnhanceURL\<close> (lines 75 to 100).  \<open>clipboardText\<close> is what
  \<^verbatim>\<open>navigator.clipboard.readText\<close> resolved to, \<open>onLine\<close> is \<^verbatim>\<open>navigator.onLine\<close>.
\<close>

definition manualPasteAndEnhanceURL :: "checkif \<Rightarrow> bool \<Rightarrow> jsstring option \<Rightarrow> call list" where
  "manualPasteAndEnhanceURL ck onLine clipboardText =
     (case clipboardText of
        None \<Rightarrow> []
      | Some t \<Rightarrow>
          if t = [] then []
          else if \<not> onLine then [ReplaceSelection t]
          else if \<not> isUrl ck t \<or> isImage ck t then [ReplaceSelection t]
          else [NewCodeBlockGenerator, ConvertUrlToCodeBlock (Some t)])"

text \<open>
  \<^verbatim>\<open>onPaste\<close> (lines 102 to 134).  \<open>settings\<close> is \<^verbatim>\<open>this.settings\<close>, which may be
  undefined; \<open>clipboardData\<close> is \<^verbatim>\<open>evt.clipboardData\<close>, which may be null, with the number
  of its files and its \<^verbatim>\<open>text/plain\<close> data.  A handler that returns before
  \<^verbatim>\<open>preventDefault\<close> leaves the paste to the editor's default handler.
\<close>

record clipboardData =
  files_length :: nat
  text_plain :: "jsstring option"

definition onPaste ::
  "checkif \<Rightarrow> ObsidianAutoCardLinkSettings option \<Rightarrow> bool \<Rightarrow> clipboardData option \<Rightarrow> call list" where
  "onPaste ck settings onLine clipboard =
     (if \<not> (case settings of None \<Rightarrow> False | Some st \<Rightarrow> enhanceDefaultPaste st) then []
      else if \<not> onLine then []
      else
        (case clipboard of
           None \<Rightarrow> []
         | Some cd \<Rightarrow>
             if files_length cd > 0 then []
             else
               (case text_plain cd of
                  None \<Rightarrow> []
                | Some t \<Rightarrow>
                    if t = [] then []
                    else if \<not> isUrl ck t \<or> isImage ck t then []
                    else [StopPropagation, PreventDefault, NewCodeBlockGenerator,
                          ConvertUrlToCodeBlock (Some t)])))"

section \<open>The grammar of the URL patterns, stated on strings\<close>

definition is_alnum :: "16 word \<Rightarrow> bool" where
  "is_alnum c \<longleftrightarrow>
     (0x30 \<le> c \<and> c \<le> 0x39) \<or> (0x41 \<le> c \<and> c \<le> 0x5A) \<or> (0x61 \<le> c \<and> c \<le> 0x7A)"

text \<open>\<open>ci p u\<close>: the text \<open>u\<close> is the ASCII literal \<open>p\<close> up to the case of its letters.\<close>

definition ci :: "string \<Rightarrow> jsstring \<Rightarrow> bool" where
  "ci p u \<longleftrightarrow> map to_upper u = map to_upper (js p)"

definition is_scheme :: "jsstring \<Rightarrow> bool" where
  "is_scheme q \<longleftrightarrow> ci ''http://'' q \<or> ci ''https://'' q"

text \<open>
  A label: letters, digits and hyphens, at least one character, a letter or digit at each
  end.
\<close>

definition is_label :: "jsstring \<Rightarrow> bool" where
  "is_label l \<longleftrightarrow>
     l \<noteq> [] \<and> list_all (\<lambda>c. is_alnum c \<or> c = cu CHR ''-'') l \<and> is_alnum (hd l) \<and> is_alnum (last l)"

text \<open>
  What may stand before the first label: \<^verbatim>\<open>www.\<close> alone, a scheme and \<^verbatim>\<open>www.\<close>, or a
  scheme alone when the label does not begin with \<^verbatim>\<open>www\<close> (in any case of the letters).
\<close>

definition url_prefix :: "jsstring \<Rightarrow> jsstring \<Rightarrow> bool" where
  "url_prefix p l \<longleftrightarrow>
     ci ''www.'' p \<or> (\<exists>q w. p = q @ w \<and> is_scheme q \<and> ci ''www.'' w) \<or>
     (is_scheme p \<and> \<not> ci ''www'' (take 3 l))"

text \<open>
  The shape of a URL: a prefix, a label, a dot, and at least two code units none of which is
  white space.
\<close>

definition url_shape :: "jsstring \<Rightarrow> bool" where
  "url_shape u \<longleftrightarrow>
     (\<exists>p l r. u = p @ l @ cu CHR ''.'' # r \<and> url_prefix p l \<and> is_label l \<and>
              2 \<le> length r \<and> list_all (\<lambda>c. \<not> is_space c) r)"

text \<open>The label of a link: no square bracket in it.\<close>

definition no_bracket :: "jsstring \<Rightarrow> bool" where
  "no_bracket label \<longleftrightarrow> list_all (\<lambda>c. c \<noteq> cu CHR ''['' \<and> c \<noteq> cu CHR '']'') label"



section \<open>The grammar as the specification words it\<close>

text \<open>
  The specification describes the bare-URL grammar in prose: an optional \<^verbatim>\<open>http(s)://\<close>
  (case-insensitive) or a bare \<^verbatim>\<open>www.\<close> prefix; a hostname of at least one label plus a
  top-level domain, where labels allow alphanumerics and internal hyphens but must not start
  or end with a hyphen when longer than one character; then at least two non-whitespace
  characters.  These definitions follow that prose, for comparison with the patterns.
\<close>

definition spec_prefix :: "jsstring \<Rightarrow> bool" where
  "spec_prefix p \<longleftrightarrow> p = [] \<or> is_scheme p \<or> ci ''www.'' p"

definition spec_label :: "jsstring \<Rightarrow> bool" where
  "spec_label l \<longleftrightarrow>
     l \<noteq> [] \<and> list_all (\<lambda>c. is_alnum c \<or> c = cu CHR ''-'') l \<and>
     (1 < length l \<longrightarrow> hd l \<noteq> cu CHR ''-'' \<and> last l \<noteq> cu CHR ''-'')"

definition spec_hostname :: "jsstring \<Rightarrow> bool" where
  "spec_hostname h \<longleftrightarrow>
     (\<exists>ls tld. ls \<noteq> [] \<and> list_all spec_label ls \<and> spec_label tld \<and>
               h = concat (map (\<lambda>l. l @ [cu CHR ''.'']) ls) @ tld)"

definition spec_bare_url :: "jsstring \<Rightarrow> bool" where
  "spec_bare_url t \<longleftrightarrow>
     (\<exists>p h r. t = p @ h @ r \<and> spec_prefix p \<and> spec_hostname h \<and>
              2 \<le> length r \<and> list_all (\<lambda>c. \<not> is_space c) r)"

text \<open>
  A linked URL in the prose: \<^verbatim>\<open>[label](URL)\<close> with a URL of the grammar above and a label
  without unescaped brackets; a backslash escapes the code unit after it.
\<close>

fun no_unescaped_brackets :: "jsstring \<Rightarrow> bool" where
  "no_unescaped_brackets [] = True"
| "no_unescaped_brackets (c # cs) =
     (if c = 0x5C then (case cs of [] \<Rightarrow> True | d # ds \<Rightarrow> no_unescaped_brackets ds)
      else c \<noteq> cu CHR ''['' \<and> c \<noteq> cu CHR '']'' \<and> no_unescaped_brackets cs)"

definition spec_linked_url :: "jsstring \<Rightarrow> bool" where
  "spec_linked_url t \<longleftrightarrow>
     (\<exists>label url. t = cu CHR ''['' # label @ js ''](''  @ url @ [cu CHR '')''] \<and>
                  no_unescaped_brackets label \<and> spec_bare_url url)"

section \<open>Devices for the proofs\<close>

text \<open>
  \<open>eats r L\<close>: from any state, the pattern \<open>r\<close> (matched with the \<^verbatim>\<open>i\<close> flag) ends exactly
  in the states that have consumed a text \<open>u\<close> with \<open>L u s'\<close>, where \<open>s'\<close> is the input left
  over, and it leaves the captures alone.  \<open>seqL\<close> is the language of a sequence.
\<close>

definition eats :: "rx \<Rightarrow> (jsstring \<Rightarrow> jsstring \<Rightarrow> bool) \<Rightarrow> bool" where
  "eats r L \<longleftrightarrow>
     (\<forall>i s cs. set (ms True r (i, s, cs)) = {(i + length u, s', cs) | u s'. s = u @ s' \<and> L u s'})"

definition seqL :: "(jsstring \<Rightarrow> jsstring \<Rightarrow> bool) \<Rightarrow> (jsstring \<Rightarrow> jsstring \<Rightarrow> bool) \<Rightarrow> jsstring \<Rightarrow> jsstring \<Rightarrow> bool" where
  "seqL L1 L2 u s' \<longleftrightarrow> (\<exists>u1 u2. u = u1 @ u2 \<and> L1 u1 (u2 @ s') \<and> L2 u2 s')"

text \<open>The languages of the parts of the URL patterns.\<close>

definition long_lbl :: "jsstring \<Rightarrow> bool" where
  "long_lbl l \<longleftrightarrow>
     (\<exists>a m b. l = a # m @ [b] \<and> is_alnum a \<and> m \<noteq> [] \<and>
              list_all (\<lambda>c. is_alnum c \<or> c = cu CHR ''-'') m \<and> is_alnum b)"

definition short_lbl :: "jsstring \<Rightarrow> bool" where
  "short_lbl l \<longleftrightarrow> l \<noteq> [] \<and> list_all is_alnum l"

definition tail_ok :: "jsstring \<Rightarrow> bool" where
  "tail_ok t \<longleftrightarrow> (\<exists>r. t = cu CHR ''.'' # r \<and> 2 \<le> length r \<and> list_all (\<lambda>c. \<not> is_space c) r)"

definition www_gate :: "jsstring \<Rightarrow> jsstring \<Rightarrow> bool" where
  "www_gate u s' \<longleftrightarrow> ci ''www.'' u \<or> (u = [] \<and> \<not> (\<exists>v w. s' = v @ w \<and> ci ''www'' v))"

definition host_ok :: "(jsstring \<Rightarrow> bool) \<Rightarrow> jsstring \<Rightarrow> bool" where
  "host_ok LBL x \<longleftrightarrow>
     (\<exists>l r. x = l @ cu CHR ''.'' # r \<and> LBL l \<and> 2 \<le> length r \<and> list_all (\<lambda>c. \<not> is_space c) r)"

definition shape_with :: "(jsstring \<Rightarrow> bool) \<Rightarrow> jsstring \<Rightarrow> bool" where
  "shape_with LBL u \<longleftrightarrow>
     (\<exists>p l r. u = p @ l @ cu CHR ''.'' # r \<and> url_prefix p l \<and> LBL l \<and>
              2 \<le> length r \<and> list_all (\<lambda>c. \<not> is_space c) r)"

text \<open>The link pattern after its \<^verbatim>\<open>^\<close>.\<close>

definition link_body :: "rx list" where
  "link_body = [Atom (Chr CHR ''[''), label_group] @ lit ''](''
                 @ [url_group 2, Atom (Chr CHR '')''), Eol]"

text \<open>A matcher that keeps the number of captures.\<close>

definition keeps :: "(mstate \<Rightarrow> mstate list) \<Rightarrow> bool" where
  "keeps f \<longleftrightarrow> (\<forall>i s cs j s' cs'. (j, s', cs') \<in> set (f (i, s, cs)) \<longrightarrow> length cs' = length cs)"

text \<open>
  For the first choice of the matcher: texts without white space, lists of states whose
  first state has a given rest, patterns that consume no white space, and an input that is
  empty or begins with white space.
\<close>

definition nsp :: "jsstring \<Rightarrow> bool" where
  "nsp u \<longleftrightarrow> list_all (\<lambda>c. \<not> is_space c) u"

definition heads_at :: "jsstring \<Rightarrow> mstate list \<Rightarrow> bool" where
  "heads_at w xs \<longleftrightarrow> xs = [] \<or> fst (snd (hd xs)) = w"

definition eats_nsp :: "rx \<Rightarrow> bool" where
  "eats_nsp r \<longleftrightarrow> (\<exists>L. eats r L \<and> (\<forall>u s'. L u s' \<longrightarrow> nsp u))"

definition stops :: "jsstring \<Rightarrow> bool" where
  "stops w \<longleftrightarrow> (case w of [] \<Rightarrow> True | c # cs \<Rightarrow> is_space c)"

section \<open>The matcher, construct by construct\<close>

text \<open>
  What each construct consumes, as a set of end states; the order of the states matters
  only for the first choice, further below.
\<close>

lemma eatsI:
  assumes "\<And>i s cs j s' cs'. (j, s', cs') \<in> set (ms True r (i, s, cs)) \<longleftrightarrow>
             (\<exists>u. s = u @ s' \<and> j = i + length u \<and> cs' = cs \<and> L u s')"
  shows "eats r L"
  unfolding eats_def using assms by auto

lemma eatsD:
  assumes "eats r L"
  shows "(j, s', cs') \<in> set (ms True r (i, s, cs)) \<longleftrightarrow>
             (\<exists>u. s = u @ s' \<and> j = i + length u \<and> cs' = cs \<and> L u s')"
  using assms unfolding eats_def by auto

lemma eats_cong: "eats r L \<Longrightarrow> (\<And>u s'. L u s' = L' u s') \<Longrightarrow> eats r L'"
  by (simp add: eats_def)

lemma eats_atom: "eats (Atom a) (\<lambda>u s'. \<exists>c. u = [c] \<and> am True a c)"
  by (rule eatsI) (auto split: list.splits)

lemma takeWhile_all_prefix:
  "(\<forall>c\<in>set u. P c) \<longleftrightarrow> length u \<le> length (takeWhile P (u @ s'))"
proof (induction u)
  case Nil
  then show ?case by simp
next
  case (Cons a u)
  then show ?case by auto
qed

lemma in_rep_states:
  "(j, s', cs') \<in> set (rep_states ic a lo hi (i, s, cs)) \<longleftrightarrow>
     (\<exists>u. s = u @ s' \<and> j = i + length u \<and> cs' = cs \<and> lo \<le> length u \<and>
          (case hi of None \<Rightarrow> True | Some h \<Rightarrow> length u \<le> h) \<and> list_all (am ic a) u)"
  (is "?l \<longleftrightarrow> ?r")
proof
  assume ?l
  then obtain k where k0: "lo \<le> k"
      "k \<le> (case hi of None \<Rightarrow> length (takeWhile (am ic a) s)
               | Some h \<Rightarrow> min h (length (takeWhile (am ic a) s)))"
      "j = i + k" "s' = drop k s" "cs' = cs"
    by (auto simp: rep_states_def Let_def)
  have k: "lo \<le> k" "k \<le> length (takeWhile (am ic a) s)"
      "case hi of None \<Rightarrow> True | Some h \<Rightarrow> k \<le> h" "j = i + k" "s' = drop k s" "cs' = cs"
    using k0 by (cases hi; simp)+
  have len: "k \<le> length s"
    using k(2) length_takeWhile_le[of "am ic a" s] by simp
  have s: "s = take k s @ s'" using k(5) by simp
  have "length (take k s) \<le> length (takeWhile (am ic a) (take k s @ s'))"
    using k(2) len s by simp
  then have "\<forall>c\<in>set (take k s). am ic a c"
    using takeWhile_all_prefix[of "take k s" "am ic a" s'] by simp
  then show ?r
    using k len s by (intro exI[of _ "take k s"]) (auto simp: list_all_iff split: option.splits)
next
  assume ?r
  then obtain u where u: "s = u @ s'" "j = i + length u" "cs' = cs" "lo \<le> length u"
      "case hi of None \<Rightarrow> True | Some h \<Rightarrow> length u \<le> h" "list_all (am ic a) u"
    by blast
  have "length u \<le> length (takeWhile (am ic a) s)"
    using u(1,6) takeWhile_all_prefix[of u "am ic a" s'] by (simp add: list_all_iff)
  then show ?l
    using u by (auto simp: rep_states_def Let_def image_iff split: option.splits
                     intro!: bexI[of _ "length u"])
qed

lemma eats_rep: "eats (Rep a lo None) (\<lambda>u s'. lo \<le> length u \<and> list_all (am True a) u)"
  by (rule eatsI) (simp add: in_rep_states)

lemma eats_opt: "eats (Rep a 0 (Some 1)) (\<lambda>u s'. u = [] \<or> (\<exists>c. u = [c] \<and> am True a c))"
proof (rule eats_cong[OF eatsI])
  show "(j, s', cs') \<in> set (ms True (Rep a 0 (Some 1)) (i, s, cs)) \<longleftrightarrow>
     (\<exists>u. s = u @ s' \<and> j = i + length u \<and> cs' = cs \<and> (length u \<le> 1 \<and> list_all (am True a) u))"
    for i s cs j s' cs'
    by (simp add: in_rep_states)
  show "(length u \<le> 1 \<and> list_all (am True a) u) = (u = [] \<or> (\<exists>c. u = [c] \<and> am True a c))"
    for u and s' :: jsstring
    by (cases u) auto
qed

lemma eats_cat_nil: "eats (Cat []) (\<lambda>u s'. u = [])"
  by (rule eatsI) auto

lemma eats_cat_cons:
  assumes "eats r L1" "eats (Cat rs) L2"
  shows "eats (Cat (r # rs)) (\<lambda>u s'. \<exists>u1 u2. u = u1 @ u2 \<and> L1 u1 (u2 @ s') \<and> L2 u2 s')"
proof (rule eatsI)
  fix i s cs j s' cs'
  have "(j, s', cs') \<in> set (ms True (Cat (r # rs)) (i, s, cs)) \<longleftrightarrow>
        (\<exists>st1 \<in> set (ms True r (i, s, cs)). (j, s', cs') \<in> set (ms True (Cat rs) st1))"
    by simp
  also have "\<dots> \<longleftrightarrow> (\<exists>i1 s1 cs1. (i1, s1, cs1) \<in> set (ms True r (i, s, cs)) \<and>
                         (j, s', cs') \<in> set (ms True (Cat rs) (i1, s1, cs1)))"
    by auto
  also have "\<dots> \<longleftrightarrow> (\<exists>u. s = u @ s' \<and> j = i + length u \<and> cs' = cs \<and>
                  (\<exists>u1 u2. u = u1 @ u2 \<and> L1 u1 (u2 @ s') \<and> L2 u2 s'))"
    unfolding eatsD[OF assms(1)] eatsD[OF assms(2)]
  proof (intro iffI; elim exE conjE)
    fix i1 s1 cs1 u1 u2
    assume "s = u1 @ s1" "i1 = i + length u1" "cs1 = cs" "L1 u1 s1"
           "s1 = u2 @ s'" "j = i1 + length u2" "cs' = cs1" "L2 u2 s'"
    then show "\<exists>u. s = u @ s' \<and> j = i + length u \<and> cs' = cs \<and>
                  (\<exists>u1 u2. u = u1 @ u2 \<and> L1 u1 (u2 @ s') \<and> L2 u2 s')"
      by (intro exI[of _ "u1 @ u2"]) auto
  next
    fix u u1 u2
    assume "s = u @ s'" "j = i + length u" "cs' = cs" "u = u1 @ u2" "L1 u1 (u2 @ s')" "L2 u2 s'"
    then show "\<exists>i1 s1 cs1. (\<exists>u. s = u @ s1 \<and> i1 = i + length u \<and> cs1 = cs \<and> L1 u s1) \<and>
                  (\<exists>u. s1 = u @ s' \<and> j = i1 + length u \<and> cs' = cs1 \<and> L2 u s')"
      by (intro exI[of _ "i + length u1"] exI[of _ "u2 @ s'"] exI[of _ cs]) auto
  qed
  finally show "(j, s', cs') \<in> set (ms True (Cat (r # rs)) (i, s, cs)) \<longleftrightarrow>
        (\<exists>u. s = u @ s' \<and> j = i + length u \<and> cs' = cs \<and>
                  (\<exists>u1 u2. u = u1 @ u2 \<and> L1 u1 (u2 @ s') \<and> L2 u2 s'))" .
qed

lemma eats_alt_nil: "eats (Alt []) (\<lambda>u s'. False)"
  by (rule eatsI) auto

lemma eats_alt_cons:
  assumes "eats r L1" "eats (Alt rs) L2"
  shows "eats (Alt (r # rs)) (\<lambda>u s'. L1 u s' \<or> L2 u s')"
proof (rule eatsI)
  fix i s cs j s' cs'
  have "(j, s', cs') \<in> set (ms True (Alt (r # rs)) (i, s, cs)) \<longleftrightarrow>
        (j, s', cs') \<in> set (ms True r (i, s, cs)) \<or> (j, s', cs') \<in> set (ms True (Alt rs) (i, s, cs))"
    by simp
  then show "(j, s', cs') \<in> set (ms True (Alt (r # rs)) (i, s, cs)) \<longleftrightarrow>
        (\<exists>u. s = u @ s' \<and> j = i + length u \<and> cs' = cs \<and> (L1 u s' \<or> L2 u s'))"
    unfolding eatsD[OF assms(1)] eatsD[OF assms(2)] by auto
qed

lemma eats_nlook:
  assumes "eats r L"
  shows "eats (NLook r) (\<lambda>u s'. u = [] \<and> \<not> (\<exists>v w. s' = v @ w \<and> L v w))"
proof (rule eatsI)
  fix i s cs j s' cs'
  have "ms True r (i, s, cs) = [] \<longleftrightarrow> \<not> (\<exists>v w. s = v @ w \<and> L v w)"
  proof -
    have "ms True r (i, s, cs) = [] \<longleftrightarrow> set (ms True r (i, s, cs)) = {}" by simp
    also have "\<dots> \<longleftrightarrow> \<not> (\<exists>v w. s = v @ w \<and> L v w)"
      using assms unfolding eats_def by auto
    finally show ?thesis .
  qed
  then show "(j, s', cs') \<in> set (ms True (NLook r) (i, s, cs)) \<longleftrightarrow>
        (\<exists>u. s = u @ s' \<and> j = i + length u \<and> cs' = cs \<and> (u = [] \<and> \<not> (\<exists>v w. s' = v @ w \<and> L v w)))"
    by auto
qed

lemma eats_cons: "eats r L1 \<Longrightarrow> eats (Cat rs) L2 \<Longrightarrow> eats (Cat (r # rs)) (seqL L1 L2)"
  using eats_cat_cons[of r L1 rs L2] by (simp add: seqL_def[abs_def])

lemma concat_map_concat_map:
  "concat (map g (concat (map f xs))) = concat (map (\<lambda>x. concat (map g (f x))) xs)"
  by (induction xs) simp_all

lemma cat_all_append:
  "cat_all (fs @ gs) st = concat (map (cat_all gs) (cat_all fs st))"
proof (induction fs arbitrary: st)
  case Nil
  then show ?case by simp
next
  case (Cons f fs)
  have "cat_all (fs @ gs) = (\<lambda>st. concat (map (cat_all gs) (cat_all fs st)))"
    by (rule ext) (rule Cons.IH)
  then show ?case by (simp add: concat_map_concat_map)
qed

lemma eats_append:
  assumes "eats (Cat xs) L1" "eats (Cat ys) L2"
  shows "eats (Cat (xs @ ys)) (seqL L1 L2)"
proof (rule eatsI)
  fix i s cs j s' cs'
  have "(j, s', cs') \<in> set (ms True (Cat (xs @ ys)) (i, s, cs)) \<longleftrightarrow>
        (\<exists>st1 \<in> set (ms True (Cat xs) (i, s, cs)). (j, s', cs') \<in> set (ms True (Cat ys) st1))"
    by (simp add: cat_all_append)
  also have "\<dots> \<longleftrightarrow> (\<exists>i1 s1 cs1. (i1, s1, cs1) \<in> set (ms True (Cat xs) (i, s, cs)) \<and>
                         (j, s', cs') \<in> set (ms True (Cat ys) (i1, s1, cs1)))"
    by auto
  also have "\<dots> \<longleftrightarrow> (\<exists>u. s = u @ s' \<and> j = i + length u \<and> cs' = cs \<and> seqL L1 L2 u s')"
    unfolding eatsD[OF assms(1)] eatsD[OF assms(2)] seqL_def
  proof (intro iffI; elim exE conjE)
    fix i1 s1 cs1 u1 u2
    assume "s = u1 @ s1" "i1 = i + length u1" "cs1 = cs" "L1 u1 s1"
           "s1 = u2 @ s'" "j = i1 + length u2" "cs' = cs1" "L2 u2 s'"
    then show "\<exists>u. s = u @ s' \<and> j = i + length u \<and> cs' = cs \<and>
                  (\<exists>u1 u2. u = u1 @ u2 \<and> L1 u1 (u2 @ s') \<and> L2 u2 s')"
      by (intro exI[of _ "u1 @ u2"]) auto
  next
    fix u u1 u2
    assume "s = u @ s'" "j = i + length u" "cs' = cs" "u = u1 @ u2" "L1 u1 (u2 @ s')" "L2 u2 s'"
    then show "\<exists>i1 s1 cs1. (\<exists>u. s = u @ s1 \<and> i1 = i + length u \<and> cs1 = cs \<and> L1 u s1) \<and>
                  (\<exists>u. s1 = u @ s' \<and> j = i1 + length u \<and> cs' = cs1 \<and> L2 u s')"
      by (intro exI[of _ "i + length u1"] exI[of _ "u2 @ s'"] exI[of _ cs]) auto
  qed
  finally show "(j, s', cs') \<in> set (ms True (Cat (xs @ ys)) (i, s, cs)) \<longleftrightarrow>
        (\<exists>u. s = u @ s' \<and> j = i + length u \<and> cs' = cs \<and> seqL L1 L2 u s')" .
qed

lemma ci_Nil: "ci [] u \<longleftrightarrow> u = []"
  by (simp add: ci_def js_def)

lemma ci_Cons: "ci (p # ps) u \<longleftrightarrow> (\<exists>c v. u = c # v \<and> am True (Chr p) c \<and> ci ps v)"
  by (cases u) (auto simp: ci_def js_def canon_def)

lemma ci_append: "ci (p @ q) u \<longleftrightarrow> (\<exists>u1 u2. u = u1 @ u2 \<and> ci p u1 \<and> ci q u2)"
proof -
  have "ci (p @ q) u \<longleftrightarrow>
        (\<exists>us vs. u = us @ vs \<and> map to_upper (js p) = map to_upper us \<and>
                 map to_upper (js q) = map to_upper vs)"
    by (simp add: ci_def js_def map_eq_append_conv)
  also have "\<dots> \<longleftrightarrow> (\<exists>u1 u2. u = u1 @ u2 \<and> ci p u1 \<and> ci q u2)"
    unfolding ci_def by (intro ex_cong1 conj_cong refl) (rule eq_commute)+
  finally show ?thesis .
qed

lemma ci_length: "ci p u \<Longrightarrow> length u = length p"
  unfolding ci_def js_def using length_map by metis

lemma ex_single_append:
  "(\<exists>u1 u2. u = u1 @ u2 \<and> (\<exists>c. u1 = [c] \<and> P c) \<and> Q u2) \<longleftrightarrow> (\<exists>c v. u = c # v \<and> P c \<and> Q v)"
proof
  assume "\<exists>c v. u = c # v \<and> P c \<and> Q v"
  then obtain c v where "u = [c] @ v" "P c" "Q v" by auto
  then show "\<exists>u1 u2. u = u1 @ u2 \<and> (\<exists>c. u1 = [c] \<and> P c) \<and> Q u2" by blast
qed auto

lemma eats_lit: "eats (Cat (lit p)) (\<lambda>u s'. ci p u)"
proof (induction p)
  case Nil
  show ?case using eats_cat_nil by (simp add: lit_def ci_Nil)
next
  case (Cons a p)
  have "eats (Cat (Atom (Chr a) # lit p)) (seqL (\<lambda>u s'. \<exists>c. u = [c] \<and> am True (Chr a) c) (\<lambda>u s'. ci p u))"
    using eats_cons[OF eats_atom Cons] .
  moreover have "seqL (\<lambda>u s'. \<exists>c. u = [c] \<and> am True (Chr a) c) (\<lambda>u s'. ci p u) u s' = ci (a # p) u"
    for u and s' :: jsstring
    unfolding seqL_def ci_Cons ex_single_append ..
  ultimately show ?case
    using eats_cong by (simp add: lit_def)
qed

section \<open>Character classes under the \<^verbatim>\<open>i\<close> flag\<close>

lemma to_upper_cases:
  "(to_upper c = c \<and> \<not> (0x61 \<le> c \<and> c \<le> 0x7A)) \<or> (0x61 \<le> c \<and> c \<le> 0x7A \<and> 0x41 \<le> to_upper c \<and> to_upper c \<le> 0x5A \<and> to_upper c + 0x20 = c)"
  unfolding to_upper_def by (simp; unat_arith)

lemma upper_not_space: "0x41 \<le> u \<Longrightarrow> u \<le> 0x5A \<Longrightarrow> \<not> is_space u"
  unfolding is_space_def word_le_nat_alt word_unat_eq_iff by simp

lemma lower_not_space: "0x61 \<le> u \<Longrightarrow> u \<le> 0x7A \<Longrightarrow> \<not> is_space u"
  unfolding is_space_def word_le_nat_alt word_unat_eq_iff by simp

lemma lower_facts:
  assumes "0x61 \<le> c" "c \<le> 0x7A"
  shows "to_lower c = c" "0x41 \<le> to_upper c" "to_upper c \<le> 0x5A"
  using assms unfolding to_lower_def to_upper_def
  by (simp_all add: word_le_nat_alt unat_sub)

lemma upper_facts:
  assumes "0x41 \<le> c" "c \<le> 0x5A"
  shows "to_upper c = c" "0x61 \<le> to_lower c" "to_lower c \<le> 0x7A"
  using assms unfolding to_lower_def to_upper_def
  by (simp_all add: word_le_nat_alt unat_word_ariths)

lemma other_facts:
  assumes "\<not> (0x61 \<le> c \<and> c \<le> 0x7A)" "\<not> (0x41 \<le> c \<and> c \<le> 0x5A)"
  shows "to_upper c = c" "to_lower c = c"
  using assms unfolding to_lower_def to_upper_def by simp_all

lemma letter_cases:
  obtains (lower) "0x61 \<le> c" "c \<le> 0x7A" "0x41 \<le> to_upper c" "to_upper c \<le> 0x5A" "to_lower c = c"
  | (upper) "0x41 \<le> c" "c \<le> 0x5A" "0x61 \<le> to_lower c" "to_lower c \<le> 0x7A" "to_upper c = c"
  | (other) "to_upper c = c" "to_lower c = c"
proof (cases "0x61 \<le> c \<and> c \<le> 0x7A")
  case True
  then show thesis using lower_facts[of c] lower by simp
next
  case nl: False
  show thesis
  proof (cases "0x41 \<le> c \<and> c \<le> 0x5A")
    case True
    then show thesis using upper_facts[of c] upper by simp
  next
    case False
    then show thesis using nl other_facts[of c] other by simp
  qed
qed

lemma am_alnum: "am True alnum c \<longleftrightarrow> is_alnum c"
proof (cases c rule: letter_cases)
  case lower
  then show ?thesis by (simp add: alnum_def is_alnum_def variants_def cu_def)
next
  case upper
  then show ?thesis by (simp add: alnum_def is_alnum_def variants_def cu_def)
next
  case other
  then show ?thesis by (auto simp add: alnum_def is_alnum_def variants_def cu_def)
qed

lemma am_non_space: "am True non_space c \<longleftrightarrow> \<not> is_space c"
proof (cases c rule: letter_cases)
  case lower
  then show ?thesis using upper_not_space[of "to_upper c"] lower_not_space[of c]
    by (simp add: non_space_def variants_def)
next
  case upper
  then show ?thesis using upper_not_space[of c] lower_not_space[of "to_lower c"]
    by (simp add: non_space_def variants_def)
next
  case other
  then show ?thesis by (simp add: non_space_def variants_def)
qed

lemma am_alnum_hyphen: "am True alnum_hyphen c \<longleftrightarrow> is_alnum c \<or> c = cu CHR ''-''"
proof (cases c rule: letter_cases)
  case lower
  then show ?thesis by (simp add: alnum_hyphen_def is_alnum_def variants_def cu_def)
next
  case upper
  then show ?thesis by (simp add: alnum_hyphen_def is_alnum_def variants_def cu_def)
next
  case other
  then show ?thesis by (auto simp add: alnum_hyphen_def is_alnum_def variants_def cu_def)
qed

lemma am_not_bracket:
  "am True (Cls True [Single CHR ''['', Single CHR '']'']) c \<longleftrightarrow> c \<noteq> cu CHR ''['' \<and> c \<noteq> cu CHR '']''"
proof (cases c rule: letter_cases)
  case lower
  then show ?thesis
    by (auto simp add: variants_def cu_def)
next
  case upper
  then show ?thesis by (auto simp add: variants_def cu_def)
next
  case other
  then show ?thesis by (auto simp add: variants_def cu_def)
qed

text \<open>
  A class is matched through the variants of the input code unit; that is the same as
  asking for a member of the class with the same case folding.
\<close>

lemma upper_lower_id: "0x41 \<le> c \<Longrightarrow> c \<le> 0x5A \<Longrightarrow> to_upper (to_lower c) = c"
  unfolding to_lower_def to_upper_def
  by (simp add: word_le_nat_alt unat_word_ariths)

lemma lower_upper_id: "0x61 \<le> c \<Longrightarrow> c \<le> 0x7A \<Longrightarrow> to_lower (to_upper c) = c"
  unfolding to_lower_def to_upper_def
  by (auto simp: word_le_nat_alt unat_sub)

lemma to_upper_idem: "to_upper (to_upper c) = to_upper c"
  by (cases c rule: letter_cases) (simp_all add: upper_facts(1))

lemma variants_canon:
  "a \<in> set (variants True c) \<longleftrightarrow> canon True a = canon True c"
proof
  assume "a \<in> set (variants True c)"
  then consider "a = c" | "a = to_upper c" | "a = to_lower c" by (auto simp: variants_def)
  then show "canon True a = canon True c"
  proof cases
    case 1
    then show ?thesis by simp
  next
    case 2
    then show ?thesis by (simp add: canon_def to_upper_idem)
  next
    case 3
    show ?thesis
    proof (cases c rule: letter_cases)
      case lower
      then show ?thesis using 3 by simp
    next
      case upper
      then show ?thesis using 3 upper_lower_id[of c] by (simp add: canon_def)
    next
      case other
      then show ?thesis using 3 by simp
    qed
  qed
next
  assume e: "canon True a = canon True c"
  then have u: "to_upper a = to_upper c" by (simp add: canon_def)
  show "a \<in> set (variants True c)"
  proof (cases a rule: letter_cases)
    case lower
    then have "a = to_lower (to_upper c)" using lower_upper_id[of a] u by simp
    moreover have "to_lower (to_upper c) = c \<or> to_lower (to_upper c) = to_lower c"
      by (cases c rule: letter_cases) (simp_all add: lower_upper_id)
    ultimately show ?thesis by (auto simp: variants_def)
  next
    case upper
    then show ?thesis using u by (simp add: variants_def)
  next
    case other
    then show ?thesis using u by (simp add: variants_def)
  qed
qed

lemma class_by_canon:
  "list_ex (item_has i) (variants True c) \<longleftrightarrow> (\<exists>a. item_has i a \<and> canon True a = canon True c)"
  unfolding list_ex_iff using variants_canon by blast

lemma am_chr_plain:
  assumes "\<not> (0x61 \<le> cu p \<and> cu p \<le> 0x7A)" "\<not> (0x41 \<le> cu p \<and> cu p \<le> 0x5A)"
  shows "am True (Chr p) c \<longleftrightarrow> c = cu p"
proof -
  have p: "to_upper (cu p) = cu p" using assms other_facts by blast
  show ?thesis
  proof (cases c rule: letter_cases)
    case lower
    then show ?thesis using assms p by (auto simp: canon_def)
  next
    case upper
    then show ?thesis using p by (auto simp: canon_def)
  next
    case other
    then show ?thesis using p by (auto simp: canon_def)
  qed
qed

lemma am_dot: "am True (Chr CHR ''.'') c \<longleftrightarrow> c = cu CHR ''.''"
  by (rule am_chr_plain) (simp_all add: cu_def)

section \<open>The parts of the URL patterns\<close>

lemma seqL_nil: "seqL L (\<lambda>u s'. u = []) = L"
  by (rule ext)+ (simp add: seqL_def)

lemma eats_single: "eats r L \<Longrightarrow> eats (Cat [r]) L"
  using eats_cons[OF _ eats_cat_nil, of r L] by (simp add: seqL_nil)

lemma eats_short_label: "eats (Cat [Rep alnum 1 None]) (\<lambda>u s'. short_lbl u)"
proof (rule eats_cong[OF eats_single[OF eats_rep]])
  show "(1 \<le> length u \<and> list_all (am True alnum) u) = short_lbl u" for u and s' :: jsstring
    by (cases u) (auto simp: short_lbl_def am_alnum[abs_def])
qed

lemma eats_long_label: "eats (Cat long_label) (\<lambda>u s'. long_lbl u)"
proof -
  have "eats (Cat long_label)
          (seqL (\<lambda>u s'. \<exists>c. u = [c] \<and> am True alnum c)
            (seqL (\<lambda>u s'. 1 \<le> length u \<and> list_all (am True alnum_hyphen) u)
               (\<lambda>u s'. \<exists>c. u = [c] \<and> am True alnum c)))"
    unfolding long_label_def
    by (intro eats_cons eats_atom eats_rep eats_single)
  moreover have "seqL (\<lambda>u s'. \<exists>c. u = [c] \<and> am True alnum c)
            (seqL (\<lambda>u s'. 1 \<le> length u \<and> list_all (am True alnum_hyphen) u)
               (\<lambda>u s'. \<exists>c. u = [c] \<and> am True alnum c)) u s' = long_lbl u"
    for u and s' :: jsstring
  proof
    assume "long_lbl u"
    then obtain a m b where "u = [a] @ m @ [b]" "is_alnum a" "m \<noteq> []"
        "list_all (\<lambda>c. is_alnum c \<or> c = cu CHR ''-'') m" "is_alnum b"
      by (auto simp: long_lbl_def)
    then show "seqL (\<lambda>u s'. \<exists>c. u = [c] \<and> am True alnum c)
            (seqL (\<lambda>u s'. 1 \<le> length u \<and> list_all (am True alnum_hyphen) u)
               (\<lambda>u s'. \<exists>c. u = [c] \<and> am True alnum c)) u s'"
      unfolding seqL_def am_alnum am_alnum_hyphen
      by (intro exI[of _ "[a]"] exI[of _ "m @ [b]"] exI[of _ m] exI[of _ "[b]"] conjI)
         (auto simp: Suc_le_eq)
  next
    assume "seqL (\<lambda>u s'. \<exists>c. u = [c] \<and> am True alnum c)
            (seqL (\<lambda>u s'. 1 \<le> length u \<and> list_all (am True alnum_hyphen) u)
               (\<lambda>u s'. \<exists>c. u = [c] \<and> am True alnum c)) u s'"
    then obtain a m b where "u = [a] @ m @ [b]" "is_alnum a" "1 \<le> length m"
        "list_all (\<lambda>c. is_alnum c \<or> c = cu CHR ''-'') m" "is_alnum b"
      unfolding seqL_def am_alnum am_alnum_hyphen by auto
    then show "long_lbl u"
      unfolding long_lbl_def by (intro exI[of _ a] exI[of _ m] exI[of _ b]) auto
  qed
  ultimately show ?thesis by (rule eats_cong)
qed

lemma eats_tail: "eats (Cat tail) (\<lambda>u s'. tail_ok u)"
proof -
  have "eats (Cat tail)
          (seqL (\<lambda>u s'. \<exists>c. u = [c] \<and> am True (Chr CHR ''.'') c)
                (\<lambda>u s'. 2 \<le> length u \<and> list_all (am True non_space) u))"
    unfolding tail_def by (intro eats_cons eats_atom eats_rep eats_single)
  moreover have "seqL (\<lambda>u s'. \<exists>c. u = [c] \<and> am True (Chr CHR ''.'') c)
                (\<lambda>u s'. 2 \<le> length u \<and> list_all (am True non_space) u) u s' = tail_ok u"
    for u and s' :: jsstring
    unfolding seqL_def ex_single_append tail_ok_def am_non_space am_dot
    by auto
  ultimately show ?thesis by (rule eats_cong)
qed

lemma ci_single: "ci [p] v \<longleftrightarrow> (\<exists>c. v = [c] \<and> am True (Chr p) c)"
  by (auto simp: ci_Cons ci_Nil)

lemma is_scheme_parts:
  "is_scheme u \<longleftrightarrow>
     (\<exists>u1 u2. u = u1 @ u2 \<and> ci ''http'' u1 \<and>
        (\<exists>v1 v2. u2 = v1 @ v2 \<and> (v1 = [] \<or> (\<exists>c. v1 = [c] \<and> am True (Chr CHR ''s'') c)) \<and>
                 ci ''://'' v2))"
  (is "_ \<longleftrightarrow> ?r")
proof -
  have a: "ci ''http://'' u \<longleftrightarrow> (\<exists>u1 u2. u = u1 @ u2 \<and> ci ''http'' u1 \<and> ci ''://'' u2)"
    using ci_append[of "''http''" "''://''" u] by simp
  have b: "ci ''https://'' u \<longleftrightarrow>
           (\<exists>u1 u2. u = u1 @ u2 \<and> ci ''http'' u1 \<and>
              (\<exists>v1 v2. u2 = v1 @ v2 \<and> ci ''s'' v1 \<and> ci ''://'' v2))"
    using ci_append[of "''http''" "''s://''" u] ci_append[of "''s''" "''://''"] by simp
  have c: "ci ''s'' v \<longleftrightarrow> (\<exists>c. v = [c] \<and> am True (Chr CHR ''s'') c)" for v
    by (rule ci_single)
  show ?thesis
  proof
    assume "is_scheme u"
    then consider "ci ''http://'' u" | "ci ''https://'' u" unfolding is_scheme_def by blast
    then show ?r
    proof cases
      case 1
      then obtain u1 u2 where "u = u1 @ u2" "ci ''http'' u1" "ci ''://'' u2" using a by blast
      then show ?thesis by (intro exI[of _ u1] exI[of _ u2] conjI exI[of _ "[]"]) auto
    next
      case 2
      then show ?thesis unfolding b c by blast
    qed
  next
    assume ?r
    then obtain u1 u2 v1 v2 where h: "u = u1 @ u2" "ci ''http'' u1" "u2 = v1 @ v2"
       "v1 = [] \<or> (\<exists>c. v1 = [c] \<and> am True (Chr CHR ''s'') c)" "ci ''://'' v2"
      by blast
    from h(4) show "is_scheme u"
    proof
      assume "v1 = []"
      then have "ci ''http://'' u" unfolding a using h by auto
      then show ?thesis by (simp add: is_scheme_def)
    next
      assume "\<exists>c. v1 = [c] \<and> am True (Chr CHR ''s'') c"
      then have "ci ''s'' v1" unfolding c .
      then have "ci ''https://'' u" unfolding b using h by blast
      then show ?thesis by (simp add: is_scheme_def)
    qed
  qed
qed

lemma eats_scheme: "eats (Cat scheme) (\<lambda>u s'. is_scheme u)"
proof -
  have "eats (Cat scheme)
          (seqL (\<lambda>u s'. ci ''http'' u)
             (seqL (\<lambda>u s'. u = [] \<or> (\<exists>c. u = [c] \<and> am True (Chr CHR ''s'') c))
                   (\<lambda>u s'. ci ''://'' u)))"
    unfolding scheme_def append_Cons append_Nil
    by (intro eats_append eats_cons eats_lit eats_opt)
  then show ?thesis
    by (rule eats_cong) (simp add: seqL_def is_scheme_parts)
qed

lemma eats_www_or_not: "eats www_or_not www_gate"
proof -
  have "eats www_or_not
          (\<lambda>u s'. ci ''www.'' u \<or> (u = [] \<and> \<not> (\<exists>v w. s' = v @ w \<and> ci ''www'' v)) \<or> False)"
    unfolding www_or_not_def
    by (intro eats_alt_cons eats_alt_nil eats_nlook eats_lit)
  then show ?thesis
    by (rule eats_cong) (simp add: www_gate_def)
qed

lemma host_ok_seqL: "seqL (\<lambda>u s'. LBL u) (\<lambda>u s'. tail_ok u) x s' = host_ok LBL x"
  unfolding seqL_def host_ok_def tail_ok_def by blast

lemma ci_prefix_take:
  "(\<exists>v w. y = v @ w \<and> ci p v) \<longleftrightarrow> ci p (take (length p) y)"
proof
  assume "\<exists>v w. y = v @ w \<and> ci p v"
  then obtain v w where "y = v @ w" "ci p v" by blast
  then show "ci p (take (length p) y)" using ci_length[of p v] by simp
next
  assume "ci p (take (length p) y)"
  then show "\<exists>v w. y = v @ w \<and> ci p v"
    using append_take_drop_id[of "length p" y, symmetric] by blast
qed

lemma not_www_dot: "\<not> am True (Chr CHR ''w'') (cu CHR ''.'')"
  by (simp add: canon_def to_upper_def cu_def)

lemma www_lookahead:
  "(\<exists>v w. (l @ cu CHR ''.'' # r) @ s' = v @ w \<and> ci ''www'' v) \<longleftrightarrow> ci ''www'' (take 3 l)"
proof -
  have "ci ''www'' (take 3 ((l @ cu CHR ''.'' # r) @ s')) \<longleftrightarrow> ci ''www'' (take 3 l)"
  proof (cases "3 \<le> length l")
    case True
    then show ?thesis by simp
  next
    case False
    then have "length l = 0 \<or> length l = 1 \<or> length l = 2" by arith
    then have "\<not> ci ''www'' (take 3 ((l @ cu CHR ''.'' # r) @ s'))"
      using not_www_dot by (auto simp: length_Suc_conv ci_Cons numeral_2_eq_2)
    moreover have "\<not> ci ''www'' (take 3 l)"
      using False ci_length[of "''www''" "take 3 l"] by auto
    ultimately show ?thesis by simp
  qed
  moreover have "length ''www'' = 3" by simp
  ultimately show ?thesis unfolding ci_prefix_take by (simp only:)
qed

lemma scheme_branch:
  "seqL (\<lambda>u s'. is_scheme u) (seqL www_gate (\<lambda>u s'. host_ok LBL u)) u s' \<longleftrightarrow>
     (\<exists>p l r. u = p @ l @ cu CHR ''.'' # r \<and>
        ((\<exists>q w. p = q @ w \<and> is_scheme q \<and> ci ''www.'' w) \<or>
         (is_scheme p \<and> \<not> ci ''www'' (take 3 l))) \<and>
        LBL l \<and> 2 \<le> length r \<and> list_all (\<lambda>c. \<not> is_space c) r)"
  (is "?l \<longleftrightarrow> ?r")
proof
  assume ?l
  then obtain q w x where h: "u = q @ w @ x" "is_scheme q" "www_gate w (x @ s')" "host_ok LBL x"
    unfolding seqL_def by blast
  from h(4) obtain l r where x: "x = l @ cu CHR ''.'' # r" "LBL l" "2 \<le> length r"
      "list_all (\<lambda>c. \<not> is_space c) r"
    unfolding host_ok_def by blast
  from h(3) consider "ci ''www.'' w" | "w = []" "\<not> ci ''www'' (take 3 l)"
    unfolding www_gate_def x(1) www_lookahead by blast
  then show ?r
  proof cases
    case 1
    then show ?thesis using h(1,2) x
      by (intro exI[of _ "q @ w"] exI[of _ l] exI[of _ r]) auto
  next
    case 2
    then show ?thesis using h(1,2) x
      by (intro exI[of _ q] exI[of _ l] exI[of _ r]) auto
  qed
next
  assume ?r
  then obtain p l r where h: "u = p @ l @ cu CHR ''.'' # r"
      "(\<exists>q w. p = q @ w \<and> is_scheme q \<and> ci ''www.'' w) \<or> (is_scheme p \<and> \<not> ci ''www'' (take 3 l))"
      "LBL l" "2 \<le> length r" "list_all (\<lambda>c. \<not> is_space c) r"
    by blast
  have host: "host_ok LBL (l @ cu CHR ''.'' # r)"
    unfolding host_ok_def using h(3-5) by blast
  from h(2) show ?l
  proof
    assume "\<exists>q w. p = q @ w \<and> is_scheme q \<and> ci ''www.'' w"
    then obtain q w where "p = q @ w" "is_scheme q" "ci ''www.'' w" by blast
    then show ?l unfolding seqL_def www_gate_def using h(1) host
      by (intro exI[of _ q] exI[of _ "w @ l @ cu CHR ''.'' # r"] conjI
                exI[of _ w] exI[of _ "l @ cu CHR ''.'' # r"]) auto
  next
    assume a: "is_scheme p \<and> \<not> ci ''www'' (take 3 l)"
    then have "www_gate [] ((l @ cu CHR ''.'' # r) @ s')"
      unfolding www_gate_def www_lookahead by simp
    then show ?l unfolding seqL_def using h(1) host a
      by (intro exI[of _ p] exI[of _ "l @ cu CHR ''.'' # r"] conjI
                exI[of _ "[]"]) auto
  qed
qed

lemma www_branch:
  "seqL (\<lambda>u s'. ci ''www.'' u) (\<lambda>u s'. host_ok LBL u) u s' \<longleftrightarrow>
     (\<exists>p l r. u = p @ l @ cu CHR ''.'' # r \<and> ci ''www.'' p \<and>
        LBL l \<and> 2 \<le> length r \<and> list_all (\<lambda>c. \<not> is_space c) r)"
  unfolding seqL_def host_ok_def by blast

lemma branches_shape:
  "seqL (\<lambda>u s'. is_scheme u) (seqL www_gate (\<lambda>u s'. host_ok LBL u)) u s' \<or>
   seqL (\<lambda>u s'. ci ''www.'' u) (\<lambda>u s'. host_ok LBL u) u s' \<longleftrightarrow> shape_with LBL u"
  unfolding scheme_branch www_branch shape_with_def url_prefix_def by blast

lemma is_label_split: "is_label l \<longleftrightarrow> long_lbl l \<or> short_lbl l"
proof
  assume "long_lbl l \<or> short_lbl l"
  then show "is_label l"
  proof
    assume "long_lbl l"
    then show ?thesis unfolding long_lbl_def is_label_def by auto
  next
    assume "short_lbl l"
    then have "l \<noteq> []" "list_all is_alnum l" unfolding short_lbl_def by auto
    then have "is_alnum (hd l)" "is_alnum (last l)" "list_all (\<lambda>c. is_alnum c \<or> c = cu CHR ''-'') l"
      by (auto simp: list_all_iff)
    then show ?thesis using \<open>l \<noteq> []\<close> unfolding is_label_def by simp
  qed
next
  assume l: "is_label l"
  then obtain a l' where al: "l = a # l'" unfolding is_label_def by (cases l) auto
  show "long_lbl l \<or> short_lbl l"
  proof (cases l' rule: rev_cases)
    case Nil
    then show ?thesis using l al unfolding is_label_def short_lbl_def by simp
  next
    case (snoc m b)
    show ?thesis
    proof (cases "m = []")
      case True
      then show ?thesis using l al snoc unfolding is_label_def short_lbl_def by simp
    next
      case False
      then have "long_lbl l"
        using l al snoc unfolding is_label_def long_lbl_def
        by (intro exI[of _ a] exI[of _ m] exI[of _ b]) auto
      then show ?thesis ..
    qed
  qed
qed

lemma url_shape_split: "url_shape u \<longleftrightarrow> shape_with long_lbl u \<or> shape_with short_lbl u"
  unfolding url_shape_def shape_with_def is_label_split by blast

lemma eats_scheme_alt:
  assumes "eats (Cat X) (\<lambda>u s'. LBL u)"
  shows "eats (Cat (scheme @ [www_or_not] @ X @ tail))
           (seqL (\<lambda>u s'. is_scheme u) (seqL www_gate (\<lambda>u s'. host_ok LBL u)))"
proof -
  have "eats (Cat (X @ tail)) (\<lambda>u s'. host_ok LBL u)"
    using eats_append[OF assms eats_tail] by (rule eats_cong) (rule host_ok_seqL)
  then show ?thesis
    unfolding append_Cons append_Nil
    by (intro eats_append eats_cons eats_scheme eats_www_or_not)
qed

lemma eats_www_alt:
  assumes "eats (Cat X) (\<lambda>u s'. LBL u)"
  shows "eats (Cat (lit ''www.'' @ X @ tail))
           (seqL (\<lambda>u s'. ci ''www.'' u) (\<lambda>u s'. host_ok LBL u))"
proof -
  have "eats (Cat (X @ tail)) (\<lambda>u s'. host_ok LBL u)"
    using eats_append[OF assms eats_tail] by (rule eats_cong) (rule host_ok_seqL)
  then show ?thesis
    by (intro eats_append eats_lit)
qed

lemma eats_url_alts: "eats (Alt url_alts) (\<lambda>u s'. url_shape u)"
proof -
  have "eats (Alt url_alts)
     (\<lambda>u s'. seqL (\<lambda>u s'. is_scheme u) (seqL www_gate (\<lambda>u s'. host_ok long_lbl u)) u s' \<or>
             seqL (\<lambda>u s'. ci ''www.'' u) (\<lambda>u s'. host_ok long_lbl u) u s' \<or>
             seqL (\<lambda>u s'. is_scheme u) (seqL www_gate (\<lambda>u s'. host_ok short_lbl u)) u s' \<or>
             seqL (\<lambda>u s'. ci ''www.'' u) (\<lambda>u s'. host_ok short_lbl u) u s' \<or> False)"
    unfolding url_alts_def
    by (intro eats_alt_cons eats_alt_nil eats_scheme_alt eats_www_alt
              eats_long_label eats_short_label)
  then show ?thesis
  proof (rule eats_cong)
    fix u s' :: jsstring
    show "(seqL (\<lambda>u s'. is_scheme u) (seqL www_gate (\<lambda>u s'. host_ok long_lbl u)) u s' \<or>
             seqL (\<lambda>u s'. ci ''www.'' u) (\<lambda>u s'. host_ok long_lbl u) u s' \<or>
             seqL (\<lambda>u s'. is_scheme u) (seqL www_gate (\<lambda>u s'. host_ok short_lbl u)) u s' \<or>
             seqL (\<lambda>u s'. ci ''www.'' u) (\<lambda>u s'. host_ok short_lbl u) u s' \<or> False) = url_shape u"
      using branches_shape[of long_lbl u s'] branches_shape[of short_lbl u s']
      unfolding url_shape_split by blast
  qed
qed

lemma in_grp:
  "(j, s', cs') \<in> set (ms ic (Grp k r) (i, s, cs)) \<longleftrightarrow>
     (\<exists>cs0. (j, s', cs0) \<in> set (ms ic r (i, s, cs)) \<and>
            cs' = cs0[k - 1 := Some (take (j - i) s)])"
proof
  assume "(j, s', cs') \<in> set (ms ic (Grp k r) (i, s, cs))"
  then obtain x where x: "x \<in> set (ms ic r (i, s, cs))"
      "(j, s', cs') = (case x of (j, s', cs') \<Rightarrow> (j, s', cs'[k - 1 := Some (take (j - i) s)]))"
    by auto
  obtain j0 s0 cs0 where "x = (j0, s0, cs0)" by (cases x) auto
  then show "\<exists>cs0. (j, s', cs0) \<in> set (ms ic r (i, s, cs)) \<and>
            cs' = cs0[k - 1 := Some (take (j - i) s)]"
    using x by auto
next
  assume "\<exists>cs0. (j, s', cs0) \<in> set (ms ic r (i, s, cs)) \<and>
            cs' = cs0[k - 1 := Some (take (j - i) s)]"
  then obtain cs0 where "(j, s', cs0) \<in> set (ms ic r (i, s, cs))"
      "cs' = cs0[k - 1 := Some (take (j - i) s)]" by blast
  then show "(j, s', cs') \<in> set (ms ic (Grp k r) (i, s, cs))"
    by (auto simp: image_iff intro!: bexI[of _ "(j, s', cs0)"])
qed

lemma in_url_group:
  "(j, s', cs') \<in> set (ms True (url_group k) (i, s, cs)) \<longleftrightarrow>
     (\<exists>u. s = u @ s' \<and> j = i + length u \<and> cs' = cs[k - 1 := Some u] \<and> url_shape u)"
proof -
  have "(j, s', cs') \<in> set (ms True (url_group k) (i, s, cs)) \<longleftrightarrow>
        (\<exists>cs0. (j, s', cs0) \<in> set (ms True (Alt url_alts) (i, s, cs)) \<and>
               cs' = cs0[k - 1 := Some (take (j - i) s)])"
    unfolding url_group_def by (rule in_grp)
  also have "\<dots> \<longleftrightarrow> (\<exists>u. s = u @ s' \<and> j = i + length u \<and> cs' = cs[k - 1 := Some u] \<and> url_shape u)"
    unfolding eatsD[OF eats_url_alts] by auto
  finally show ?thesis .
qed

section \<open>Searching and anchoring\<close>

text \<open>
  The search fails exactly when the matcher fails at every index; a pattern that begins
  with \<^verbatim>\<open>^\<close> can only match at index 0.
\<close>

lemma search_None:
  "search re i s = None \<longleftrightarrow>
     (\<forall>k \<le> length s. ms (ignoreCase re) (pattern re) (i + k, drop k s, replicate (groups re) None) = [])"
proof (induction s arbitrary: i)
  case Nil
  then show ?case by (simp split: list.splits)
next
  case (Cons c s)
  have "(\<forall>k \<le> length (c # s). ms (ignoreCase re) (pattern re) (i + k, drop k (c # s), replicate (groups re) None) = [])
        \<longleftrightarrow> ms (ignoreCase re) (pattern re) (i, c # s, replicate (groups re) None) = [] \<and>
            (\<forall>k \<le> length s. ms (ignoreCase re) (pattern re) (Suc i + k, drop k s, replicate (groups re) None) = [])"
    (is "?a \<longleftrightarrow> ?b \<and> ?c")
  proof (intro iffI conjI)
    assume a: ?a
    from a[rule_format, of 0] show ?b by simp
    show ?c
    proof (intro allI impI)
      fix k assume "k \<le> length s"
      then show "ms (ignoreCase re) (pattern re) (Suc i + k, drop k s, replicate (groups re) None) = []"
        using a[rule_format, of "Suc k"] by simp
    qed
  next
    assume bc: "?b \<and> ?c"
    show ?a
    proof (intro allI impI)
      fix k assume k: "k \<le> length (c # s)"
      show "ms (ignoreCase re) (pattern re) (i + k, drop k (c # s), replicate (groups re) None) = []"
      proof (cases k)
        case 0
        then show ?thesis using bc by simp
      next
        case (Suc k')
        then show ?thesis using bc k by simp
      qed
    qed
  qed
  then show ?case using Cons.IH[of "Suc i"] by (simp split: list.splits)
qed

lemma search_hit:
  "ms (ignoreCase re) (pattern re) (i, s, replicate (groups re) None) = e # es \<Longrightarrow>
   search re i s = Some (i, s, e)"
  by (cases s) simp_all

lemma bol_first:
  "ms ic (Cat (Bol # rs)) (i, s, cs) = (if i = 0 then ms ic (Cat rs) (0, s, cs) else [])"
  by simp

lemma test_anchored:
  assumes "pattern re = Cat (Bol # rs)"
  shows "test re s \<longleftrightarrow> ms (ignoreCase re) (Cat rs) (0, s, replicate (groups re) None) \<noteq> []"
proof -
  have "search re 0 s = None \<longleftrightarrow> ms (ignoreCase re) (Cat rs) (0, s, replicate (groups re) None) = []"
    unfolding search_None assms bol_first
  proof
    assume "\<forall>k\<le>length s. (if 0 + k = 0 then ms (ignoreCase re) (Cat rs) (0, drop k s, replicate (groups re) None) else []) = []"
    from this[rule_format, of 0] show "ms (ignoreCase re) (Cat rs) (0, s, replicate (groups re) None) = []"
      by simp
  next
    assume "ms (ignoreCase re) (Cat rs) (0, s, replicate (groups re) None) = []"
    then show "\<forall>k\<le>length s. (if 0 + k = 0 then ms (ignoreCase re) (Cat rs) (0, drop k s, replicate (groups re) None) else []) = []"
      by simp
  qed
  then show ?thesis
    unfolding test_def exec_def by (auto split: option.splits)
qed

lemma in_cat_cons:
  "st' \<in> set (ms ic (Cat (r # rs)) st) \<longleftrightarrow> (\<exists>st1 \<in> set (ms ic r st). st' \<in> set (ms ic (Cat rs) st1))"
  by simp

lemma in_cat_eol:
  "st' \<in> set (ms ic (Cat [Eol]) (i, s, cs)) \<longleftrightarrow> s = [] \<and> st' = (i, s, cs)"
  by auto

lemma url_regex_matches:
  "ms True (Cat [url_group 1, Eol]) (0, t, [None]) \<noteq> [] \<longleftrightarrow> url_shape t"
proof -
  have "ms True (Cat [url_group 1, Eol]) (0, t, [None]) \<noteq> [] \<longleftrightarrow>
        (\<exists>st'. st' \<in> set (ms True (Cat [url_group 1, Eol]) (0, t, [None])))"
    by (cases "ms True (Cat [url_group 1, Eol]) (0, t, [None])") auto
  also have "\<dots> \<longleftrightarrow> (\<exists>st' j s' cs'. (j, s', cs') \<in> set (ms True (url_group 1) (0, t, [None])) \<and>
                          st' \<in> set (ms True (Cat [Eol]) (j, s', cs')))"
    unfolding in_cat_cons by auto
  also have "\<dots> \<longleftrightarrow> (\<exists>j cs'. (j, [], cs') \<in> set (ms True (url_group 1) (0, t, [None])))"
    unfolding in_cat_eol by auto
  also have "\<dots> \<longleftrightarrow> url_shape t"
    unfolding in_url_group by auto
  finally show ?thesis .
qed

lemma test_url_regex: "test url_regex t \<longleftrightarrow> url_shape t"
  using test_anchored[of url_regex "[url_group 1, Eol]" t] url_regex_matches[of t]
  by (simp add: url_regex_def)




section \<open>The link pattern\<close>

lemma in_cat_cons3:
  "st' \<in> set (ms ic (Cat (r # rs)) st) \<longleftrightarrow>
     (\<exists>j s1 cs1. (j, s1, cs1) \<in> set (ms ic r st) \<and> st' \<in> set (ms ic (Cat rs) (j, s1, cs1)))"
  by auto

lemma in_cat_append3:
  "st' \<in> set (ms ic (Cat (xs @ ys)) st) \<longleftrightarrow>
     (\<exists>j s1 cs1. (j, s1, cs1) \<in> set (ms ic (Cat xs) st) \<and> st' \<in> set (ms ic (Cat ys) (j, s1, cs1)))"
  by (auto simp: cat_all_append)

lemma in_atom_plain:
  assumes "\<not> (0x61 \<le> cu p \<and> cu p \<le> 0x7A)" "\<not> (0x41 \<le> cu p \<and> cu p \<le> 0x5A)"
  shows "(j, s', cs') \<in> set (ms True (Atom (Chr p)) (i, s, cs)) \<longleftrightarrow>
           s = cu p # s' \<and> j = Suc i \<and> cs' = cs"
  unfolding eatsD[OF eats_atom] am_chr_plain[OF assms] by auto

lemma in_label_group:
  "(j, s', cs') \<in> set (ms True label_group (i, s, cs)) \<longleftrightarrow>
     (\<exists>u. s = u @ s' \<and> j = i + length u \<and> cs' = cs[0 := Some u] \<and>
          list_all (\<lambda>c. c \<noteq> cu CHR ''['' \<and> c \<noteq> cu CHR '']'') u)"
  unfolding label_group_def in_grp eatsD[OF eats_rep] am_not_bracket by auto

lemma ci_bracket_paren: "ci ''](''  u \<longleftrightarrow> u = js ''](''"
proof -
  have a: "am True (Chr CHR '']'') c \<longleftrightarrow> c = cu CHR '']''" for c
    by (rule am_chr_plain) (simp_all add: cu_def)
  have b: "am True (Chr CHR ''('') c \<longleftrightarrow> c = cu CHR ''(''" for c
    by (rule am_chr_plain) (simp_all add: cu_def)
  show ?thesis unfolding ci_Cons ci_Nil a b by (auto simp: js_def)
qed

lemma in_open_bracket:
  "(j, s', cs') \<in> set (ms True (Atom (Chr CHR ''['')) (i, s, cs)) \<longleftrightarrow>
           s = cu CHR ''['' # s' \<and> j = Suc i \<and> cs' = cs"
  by (rule in_atom_plain) (simp_all add: cu_def)

lemma in_close_paren:
  "(j, s', cs') \<in> set (ms True (Atom (Chr CHR '')'')) (i, s, cs)) \<longleftrightarrow>
           s = cu CHR '')'' # s' \<and> j = Suc i \<and> cs' = cs"
  by (rule in_atom_plain) (simp_all add: cu_def)

lemma in_link_tail:
  "st' \<in> set (ms True (Cat [url_group 2, Atom (Chr CHR '')''), Eol]) (i, s, cs)) \<longleftrightarrow>
     (\<exists>url. s = url @ [cu CHR '')''] \<and> url_shape url \<and>
            st' = (i + length url + 1, [], cs[1 := Some url]))"
  unfolding in_cat_cons3 in_url_group in_close_paren in_cat_eol
  by auto

lemma in_link_mid:
  "st' \<in> set (ms True (Cat (lit ''](''  @ [url_group 2, Atom (Chr CHR '')''), Eol])) (i, s, cs)) \<longleftrightarrow>
     (\<exists>url. s = js ''](''  @ url @ [cu CHR '')''] \<and> url_shape url \<and>
            st' = (i + length url + 3, [], cs[1 := Some url]))"
  unfolding in_cat_append3 eatsD[OF eats_lit] ci_bracket_paren in_link_tail
  by (auto simp: js_def)

lemma cat_step:
  assumes "\<And>j s' cs'. (j, s', cs') \<in> set (ms ic r (i, s, cs)) \<longleftrightarrow>
             (\<exists>u. s = u @ s' \<and> j = i + length u \<and> cs' = f u \<and> P u)"
  shows "st' \<in> set (ms ic (Cat (r # rs)) (i, s, cs)) \<longleftrightarrow>
           (\<exists>u s1. s = u @ s1 \<and> P u \<and> st' \<in> set (ms ic (Cat rs) (i + length u, s1, f u)))"
proof
  assume "st' \<in> set (ms ic (Cat (r # rs)) (i, s, cs))"
  then obtain j s1 cs1 where a: "(j, s1, cs1) \<in> set (ms ic r (i, s, cs))"
      "st' \<in> set (ms ic (Cat rs) (j, s1, cs1))"
    unfolding in_cat_cons3 by blast
  from a(1) obtain u where "s = u @ s1" "j = i + length u" "cs1 = f u" "P u"
    unfolding assms by blast
  then show "\<exists>u s1. s = u @ s1 \<and> P u \<and> st' \<in> set (ms ic (Cat rs) (i + length u, s1, f u))"
    using a(2) by blast
next
  assume "\<exists>u s1. s = u @ s1 \<and> P u \<and> st' \<in> set (ms ic (Cat rs) (i + length u, s1, f u))"
  then obtain u s1 where b: "s = u @ s1" "P u"
      "st' \<in> set (ms ic (Cat rs) (i + length u, s1, f u))"
    by blast
  then have "(i + length u, s1, f u) \<in> set (ms ic r (i, s, cs))"
    unfolding assms by blast
  then show "st' \<in> set (ms ic (Cat (r # rs)) (i, s, cs))"
    unfolding in_cat_cons3 using b(3) by blast
qed

lemma in_link_body:
  "st' \<in> set (ms True (Cat link_body) (i, s, [None, None])) \<longleftrightarrow>
     (\<exists>label url. s = cu CHR ''['' # label @ js ''](''  @ url @ [cu CHR '')''] \<and>
         no_bracket label \<and> url_shape url \<and>
         st' = (i + length s, [], [Some label, Some url]))"
proof -
  have a: "(j, s', cs') \<in> set (ms True (Atom (Chr CHR ''['')) (i, s, cs)) \<longleftrightarrow>
             (\<exists>u. s = u @ s' \<and> j = i + length u \<and> cs' = cs \<and> u = [cu CHR ''['']) "
    for i j s s' and cs cs' :: "jsstring option list"
    unfolding in_open_bracket by auto
  have b: "(j, s', cs') \<in> set (ms True label_group (i, s, cs)) \<longleftrightarrow>
             (\<exists>u. s = u @ s' \<and> j = i + length u \<and> cs' = cs[0 := Some u] \<and> no_bracket u)"
    for i j s s' and cs cs' :: "jsstring option list"
    unfolding in_label_group no_bracket_def by auto
  show ?thesis
    unfolding link_body_def append_Cons append_Nil
    unfolding cat_step[where r="Atom (Chr CHR ''['')", OF a] cat_step[where r=label_group, OF b]
      in_link_mid
    by (auto simp: js_def)
qed

lemma exec_anchored:
  assumes "pattern re = Cat (Bol # rs)"
  shows "exec re s =
           (case ms (ignoreCase re) (Cat rs) (0, s, replicate (groups re) None) of
              [] \<Rightarrow> None
            | (j, t', cs) # es \<Rightarrow> Some (Some (take j s) # cs))"
proof (cases "ms (ignoreCase re) (Cat rs) (0, s, replicate (groups re) None)")
  case Nil
  then have "\<not> test re s" using test_anchored[OF assms, of s] by simp
  then show ?thesis using Nil by (simp add: test_def)
next
  case (Cons e es)
  then have "search re 0 s = Some (0, s, e)"
    using assms search_hit[of re 0 s e es] by (simp del: ms.simps add: bol_first)
  then show ?thesis using Cons by (cases e) (simp add: exec_def)
qed

lemma split_at_first:
  assumes "list_all (\<lambda>c. c \<noteq> k) a" "list_all (\<lambda>c. c \<noteq> k) a'" "a @ k # x = a' @ k # x'"
  shows "a = a' \<and> x = x'"
  using assms
proof (induction a arbitrary: a')
  case Nil
  then show ?case by (cases a') auto
next
  case (Cons c a)
  then show ?case by (cases a') auto
qed

lemma link_unique:
  assumes "no_bracket label" "no_bracket label'"
    "cu CHR ''['' # label @ js ''](''  @ url @ [cu CHR '')''] =
     cu CHR ''['' # label' @ js ''](''  @ url' @ [cu CHR '')'']"
  shows "label = label' \<and> url = url'"
proof -
  have "list_all (\<lambda>c. c \<noteq> cu CHR '']'') label" "list_all (\<lambda>c. c \<noteq> cu CHR '']'') label'"
    using assms(1,2) unfolding no_bracket_def by (auto simp: list_all_iff)
  moreover have "label @ cu CHR '']'' # (cu CHR ''('' # url @ [cu CHR '')'']) =
                 label' @ cu CHR '']'' # (cu CHR ''('' # url' @ [cu CHR '')''])"
    using assms(3) by (simp add: js_def)
  ultimately have "label = label' \<and> cu CHR ''('' # url @ [cu CHR '')''] = cu CHR ''('' # url' @ [cu CHR '')'']"
    by (rule split_at_first)
  then show ?thesis by simp
qed

lemma url_linkRegex_pattern: "pattern url_linkRegex = Cat (Bol # link_body)"
  by (simp add: url_linkRegex_def link_body_def)

lemma test_url_linkRegex:
  "test url_linkRegex t \<longleftrightarrow>
     (\<exists>label url. t = cu CHR ''['' # label @ js ''](''  @ url @ [cu CHR '')''] \<and>
         no_bracket label \<and> url_shape url)"
proof -
  have "test url_linkRegex t \<longleftrightarrow> ms True (Cat link_body) (0, t, [None, None]) \<noteq> []"
    using test_anchored[OF url_linkRegex_pattern, of t]
    by (simp add: url_linkRegex_def numeral_2_eq_2)
  also have "\<dots> \<longleftrightarrow> (\<exists>st'. st' \<in> set (ms True (Cat link_body) (0, t, [None, None])))"
    by (cases "ms True (Cat link_body) (0, t, [None, None])") auto
  also have "\<dots> \<longleftrightarrow> (\<exists>label url. t = cu CHR ''['' # label @ js ''](''  @ url @ [cu CHR '')''] \<and>
         no_bracket label \<and> url_shape url)"
    unfolding in_link_body by auto
  finally show ?thesis .
qed

lemma exec_url_linkRegex:
  assumes "no_bracket label" "url_shape url"
    and t: "t = cu CHR ''['' # label @ js ''](''  @ url @ [cu CHR '')'']"
  shows "exec url_linkRegex t = Some [Some t, Some label, Some url]"
proof -
  have "(0 + length t, [], [Some label, Some url]) \<in> set (ms True (Cat link_body) (0, t, [None, None]))"
    unfolding in_link_body using assms by blast
  then obtain e es where ees: "ms True (Cat link_body) (0, t, [None, None]) = e # es"
    by (cases "ms True (Cat link_body) (0, t, [None, None])") auto
  then have "e \<in> set (ms True (Cat link_body) (0, t, [None, None]))" by simp
  then obtain label' url' where e: "t = cu CHR ''['' # label' @ js ''](''  @ url' @ [cu CHR '')'']"
      "no_bracket label'" "e = (0 + length t, [], [Some label', Some url'])"
    unfolding in_link_body by blast
  have "cu CHR ''['' # label @ js ''](''  @ url @ [cu CHR '')''] = t"
    by (rule t[symmetric])
  also note e(1)
  finally have "label = label' \<and> url = url'"
    by (rule link_unique[OF assms(1) e(2)])
  then have "e = (length t, [], [Some label, Some url])" using e(3) by simp
  then show ?thesis
    using exec_anchored[OF url_linkRegex_pattern, of t] ees
    by (simp add: url_linkRegex_def numeral_2_eq_2)
qed

lemma getUrlFromLink_link:
  assumes "no_bracket label" "url_shape url"
  shows "getUrlFromLink url_linkRegex (cu CHR ''['' # label @ js ''](''  @ url @ [cu CHR '')'']) = Some url"
  using exec_url_linkRegex[OF assms refl] by (simp add: getUrlFromLink_def)

section \<open>The number of captures\<close>

lemma keeps_cat_all: "list_all keeps fs \<Longrightarrow> keeps (cat_all fs)"
proof (induction fs)
  case Nil
  then show ?case by (simp add: keeps_def)
next
  case (Cons f fs)
  then have f: "keeps f" and fs: "keeps (cat_all fs)" by simp_all
  show ?case unfolding keeps_def
  proof (intro allI impI)
    fix i s cs j s' cs'
    assume "(j, s', cs') \<in> set (cat_all (f # fs) (i, s, cs))"
    then obtain i1 s1 cs1 where a: "(i1, s1, cs1) \<in> set (f (i, s, cs))"
      "(j, s', cs') \<in> set (cat_all fs (i1, s1, cs1))"
      by auto
    have "length cs1 = length cs" using f a(1) unfolding keeps_def by blast
    moreover have "length cs' = length cs1" using fs a(2) unfolding keeps_def by blast
    ultimately show "length cs' = length cs" by simp
  qed
qed

lemma keeps_alt_all: "list_all keeps fs \<Longrightarrow> keeps (alt_all fs)"
proof (induction fs)
  case Nil
  then show ?case by (simp add: keeps_def)
next
  case (Cons f fs)
  then have f: "keeps f" and fs: "keeps (alt_all fs)" by simp_all
  show ?case unfolding keeps_def
  proof (intro allI impI)
    fix i s cs j s' cs'
    assume "(j, s', cs') \<in> set (alt_all (f # fs) (i, s, cs))"
    then consider "(j, s', cs') \<in> set (f (i, s, cs))"
      | "(j, s', cs') \<in> set (alt_all fs (i, s, cs))" by auto
    then show "length cs' = length cs"
      using f fs unfolding keeps_def by cases blast+
  qed
qed

lemma keeps_ms: "keeps (ms ic r)"
proof (induction r)
  case (Atom a)
  then show ?case by (auto simp: keeps_def split: list.splits if_splits)
next
  case (Rep a lo hi)
  then show ?case by (auto simp: keeps_def in_rep_states)
next
  case (Cat rs)
  then have "list_all keeps (map (ms ic) rs)" by (simp add: list_all_iff)
  from keeps_cat_all[OF this] show ?case by (simp add: keeps_def)
next
  case (Alt rs)
  then have "list_all keeps (map (ms ic) rs)" by (simp add: list_all_iff)
  from keeps_alt_all[OF this] show ?case by (simp add: keeps_def)
next
  case (Grp k r)
  then show ?case unfolding keeps_def in_grp by auto
next
  case (NLook r)
  then show ?case by (auto simp: keeps_def split: if_splits)
next
  case Bol
  then show ?case by (auto simp: keeps_def split: if_splits)
next
  case Eol
  then show ?case by (auto simp: keeps_def split: if_splits)
qed

lemma ms_caps_length:
  "(j, s', cs') \<in> set (ms ic r (i, s, cs)) \<Longrightarrow> length cs' = length cs"
  using keeps_ms[of ic r] unfolding keeps_def by blast

lemma search_Some:
  "search re i s = Some (k, t, e) \<Longrightarrow>
     (\<exists>es. ms (ignoreCase re) (pattern re) (k, t, replicate (groups re) None) = e # es)"
proof (induction s arbitrary: i)
  case Nil
  then show ?case by (auto split: list.splits)
next
  case (Cons c s)
  then show ?case by (auto split: list.splits)
qed

lemma exec_length:
  assumes "exec re s = Some arr"
  shows "length arr = Suc (groups re)"
proof -
  from assms obtain k t j t' cs where a: "search re 0 s = Some (k, t, (j, t', cs))"
      "arr = Some (take (j - k) t) # cs"
    by (auto simp: exec_def split: option.splits)
  from search_Some[OF a(1)] have "(j, t', cs) \<in> set (ms (ignoreCase re) (pattern re) (k, t, replicate (groups re) None))"
    by auto
  then have "length cs = groups re" using ms_caps_length by fastforce
  then show ?thesis using a(2) by simp
qed

lemma getUrlFromLink_no_groups: "groups re = 0 \<Longrightarrow> getUrlFromLink re link = Some []"
  using exec_length[of re link] by (auto simp: getUrlFromLink_def split: option.splits)

section \<open>The image pattern\<close>





lemma nonempty_iff: "xs \<noteq> [] \<longleftrightarrow> (\<exists>x. x \<in> set xs)"
  by (cases xs) auto



section \<open>The first choice of the matcher on a URL\<close>

text \<open>
  On a URL followed by white space or by the end of the input, the first state the matcher
  returns has consumed the whole URL: whatever the earlier parts of a branch consume, the
  final greedy run of non-white-space code units reaches the white space first.
\<close>

lemma heads_at_append: "heads_at w xs \<Longrightarrow> heads_at w ys \<Longrightarrow> heads_at w (xs @ ys)"
  by (cases xs) (auto simp: heads_at_def)

lemma heads_at_concat:
  "list_all (\<lambda>x. heads_at w (f x)) xs \<Longrightarrow> heads_at w (concat (map f xs))"
proof (induction xs)
  case Nil
  then show ?case by (simp add: heads_at_def)
next
  case (Cons x xs)
  then show ?case by (simp add: heads_at_append)
qed

lemma heads_at_map:
  assumes "heads_at w xs" "\<And>x. fst (snd (g x)) = fst (snd x)"
  shows "heads_at w (map g xs)"
  using assms by (cases xs) (auto simp: heads_at_def)

lemma is_space_upper: "is_space c \<Longrightarrow> to_upper c = c"
  using lower_not_space[of c] by (auto simp: to_upper_def)

lemma am_chr_no_space:
  assumes "am True (Chr a) c" "\<not> is_space (cu a)"
  shows "\<not> is_space c"
proof
  assume c: "is_space c"
  then have "to_upper (cu a) = c" using assms(1) is_space_upper by (simp add: canon_def)
  then show False
    using c assms(2) upper_not_space[of "to_upper (cu a)"] to_upper_cases[of "cu a"] by auto
qed

lemma ci_nsp:
  "ci p u \<Longrightarrow> list_all (\<lambda>a. \<not> is_space (cu a)) p \<Longrightarrow> nsp u"
proof (induction p arbitrary: u)
  case Nil
  then show ?case by (simp add: ci_Nil nsp_def)
next
  case (Cons a p)
  from Cons.prems(1) obtain c v where u: "u = c # v" "am True (Chr a) c" "ci p v"
    unfolding ci_Cons by blast
  have "\<not> is_space c" using am_chr_no_space[OF u(2)] Cons.prems(2) by simp
  moreover have "nsp v" using Cons.IH[OF u(3)] Cons.prems(2) by simp
  ultimately show ?case using u(1) by (simp add: nsp_def)
qed

lemma is_alnum_no_space: "is_alnum c \<Longrightarrow> \<not> is_space c"
  unfolding is_alnum_def is_space_def word_le_nat_alt word_unat_eq_iff by auto

lemma is_scheme_nsp: "is_scheme q \<Longrightarrow> nsp q"
proof -
  assume "is_scheme q"
  then consider "ci ''http://'' q" | "ci ''https://'' q" unfolding is_scheme_def by blast
  then show "nsp q"
  proof cases
    case 1
    then show ?thesis by (rule ci_nsp) (simp_all add: cu_def is_space_def)
  next
    case 2
    then show ?thesis by (rule ci_nsp) (simp_all add: cu_def is_space_def)
  qed
qed

lemma www_nsp: "ci ''www.'' q \<Longrightarrow> nsp q"
  by (rule ci_nsp[of "''www.''"]) (simp_all add: cu_def is_space_def)

lemma hyphen_no_space: "\<not> is_space (cu CHR ''-'')"
  by (simp add: cu_def is_space_def)

lemma dot_no_space: "\<not> is_space (cu CHR ''.'')"
  by (simp add: cu_def is_space_def)

lemma is_label_nsp: "is_label l \<Longrightarrow> nsp l"
  unfolding is_label_def nsp_def
  using is_alnum_no_space hyphen_no_space by (auto simp: list_all_iff)

lemma nsp_append: "nsp (u @ v) \<longleftrightarrow> nsp u \<and> nsp v"
  by (simp add: nsp_def)

lemma url_shape_nsp: "url_shape t \<Longrightarrow> nsp t"
proof -
  assume "url_shape t"
  then obtain p l r where t: "t = p @ l @ cu CHR ''.'' # r" "url_prefix p l" "is_label l"
      "list_all (\<lambda>c. \<not> is_space c) r"
    unfolding url_shape_def by blast
  have "nsp p"
    using t(2) unfolding url_prefix_def
    by (auto simp: nsp_append dest: is_scheme_nsp www_nsp)
  then show "nsp t"
    using t is_label_nsp[of l] dot_no_space by (simp add: nsp_def)
qed

lemma url_shape_nonempty: "url_shape t \<Longrightarrow> t \<noteq> []"
  unfolding url_shape_def by auto

lemma eats_nspI: "eats r L \<Longrightarrow> (\<And>u s'. L u s' \<Longrightarrow> nsp u) \<Longrightarrow> eats_nsp r"
  unfolding eats_nsp_def by blast

lemma eats_nsp_append:
  assumes "eats_nsp (Cat xs)" "eats_nsp (Cat ys)"
  shows "eats_nsp (Cat (xs @ ys))"
proof -
  from assms obtain L1 L2 where a: "eats (Cat xs) L1" "\<And>u s'. L1 u s' \<Longrightarrow> nsp u"
      "eats (Cat ys) L2" "\<And>u s'. L2 u s' \<Longrightarrow> nsp u"
    unfolding eats_nsp_def by blast
  show ?thesis
  proof (rule eats_nspI[OF eats_append[OF a(1) a(3)]])
    fix u s' assume "seqL L1 L2 u s'"
    then show "nsp u" unfolding seqL_def using a(2,4) by (auto simp: nsp_append)
  qed
qed

lemma eats_nsp_cons:
  assumes "eats_nsp r" "eats_nsp (Cat rs)"
  shows "eats_nsp (Cat (r # rs))"
proof -
  from assms obtain L1 L2 where a: "eats r L1" "\<And>u s'. L1 u s' \<Longrightarrow> nsp u"
      "eats (Cat rs) L2" "\<And>u s'. L2 u s' \<Longrightarrow> nsp u"
    unfolding eats_nsp_def by blast
  show ?thesis
  proof (rule eats_nspI[OF eats_cons[OF a(1) a(3)]])
    fix u s' assume "seqL L1 L2 u s'"
    then show "nsp u" unfolding seqL_def using a(2,4) by (auto simp: nsp_append)
  qed
qed

lemma eats_nsp_scheme: "eats_nsp (Cat scheme)"
  by (rule eats_nspI[OF eats_scheme]) (rule is_scheme_nsp)

lemma eats_nsp_www: "eats_nsp (Cat (lit ''www.''))"
  by (rule eats_nspI[OF eats_lit]) (rule www_nsp)

lemma eats_nsp_www_or_not: "eats_nsp www_or_not"
  by (rule eats_nspI[OF eats_www_or_not]) (auto simp: www_gate_def nsp_def dest: www_nsp)

lemma eats_nsp_long_label: "eats_nsp (Cat long_label)"
proof (rule eats_nspI[OF eats_long_label])
  fix u and s' :: jsstring assume "long_lbl u"
  then show "nsp u" using is_label_nsp is_label_split by blast
qed

lemma eats_nsp_short_label: "eats_nsp (Cat [Rep alnum 1 None])"
proof (rule eats_nspI[OF eats_short_label])
  fix u and s' :: jsstring assume "short_lbl u"
  then show "nsp u" using is_label_nsp is_label_split by blast
qed

lemma eats_nsp_pre:
  "eats_nsp (Cat (scheme @ [www_or_not] @ long_label))"
  "eats_nsp (Cat (lit ''www.'' @ long_label))"
  "eats_nsp (Cat (scheme @ [www_or_not] @ [Rep alnum 1 None]))"
  "eats_nsp (Cat (lit ''www.'' @ [Rep alnum 1 None]))"
  unfolding append_Cons append_Nil
  by (intro eats_nsp_append eats_nsp_cons eats_nsp_scheme eats_nsp_www eats_nsp_www_or_not
            eats_nsp_long_label eats_nsp_short_label)+

lemma takeWhile_nsp:
  assumes "nsp r" "stops w"
  shows "takeWhile (am True non_space) (r @ w) = r"
proof -
  have "\<forall>c\<in>set r. am True non_space c" using assms(1) by (simp add: nsp_def list_all_iff am_non_space)
  moreover have "takeWhile (am True non_space) w = []"
    using assms(2) by (cases w) (simp_all add: stops_def am_non_space)
  ultimately show ?thesis by (simp add: takeWhile_append2)
qed

lemma rep_non_space_heads:
  assumes "nsp r" "stops w"
  shows "heads_at w (rep_states True non_space 2 None (i, r @ w, cs))"
proof (cases "2 \<le> length r")
  case True
  then have "rev [2 ..< Suc (length r)] = length r # rev [2 ..< length r]" by simp
  then show ?thesis
    using takeWhile_nsp[OF assms] by (simp add: rep_states_def heads_at_def Let_def)
next
  case False
  then show ?thesis
    using takeWhile_nsp[OF assms] by (simp add: rep_states_def heads_at_def Let_def)
qed

lemma concat_singletons: "concat (map (\<lambda>x. [x]) xs) = xs"
  by (induction xs) simp_all

lemma ms_tail:
  "ms True (Cat tail) (i, s, cs) =
     (case s of [] \<Rightarrow> []
      | c # r \<Rightarrow> if c = cu CHR ''.'' then rep_states True non_space 2 None (Suc i, r, cs) else [])"
proof -
  have "cat_all [] = (\<lambda>x. [x])" by (rule ext) simp
  then show ?thesis
    using am_dot by (cases s) (simp_all add: tail_def concat_singletons del: am.simps)
qed

lemma tail_heads:
  assumes "nsp r" "stops w"
  shows "heads_at w (ms True (Cat tail) (i, r @ w, cs))"
proof (cases r)
  case Nil
  then show ?thesis
    using assms(2) dot_no_space unfolding ms_tail
    by (cases w) (auto simp: heads_at_def stops_def)
next
  case (Cons c r')
  then have "nsp r'" using assms(1) by (simp add: nsp_def)
  then show ?thesis
    using Cons rep_non_space_heads[OF _ assms(2), of r' "Suc i" cs] unfolding ms_tail
    by (simp add: heads_at_def)
qed

lemma split_before_stop:
  assumes "t @ w = u @ s1" "nsp u" "stops w"
  shows "\<exists>r. t = u @ r \<and> s1 = r @ w"
proof -
  from assms(1) obtain x where x: "(t = u @ x \<and> x @ w = s1) \<or> (t @ x = u \<and> w = x @ s1)"
    unfolding append_eq_append_conv2 by blast
  then show ?thesis
  proof
    assume "t = u @ x \<and> x @ w = s1"
    then show ?thesis by blast
  next
    assume a: "t @ x = u \<and> w = x @ s1"
    show ?thesis
    proof (cases x)
      case Nil
      then show ?thesis using a by simp
    next
      case (Cons c x')
      then have "is_space c" "\<not> is_space c"
        using a assms(2,3) by (auto simp: stops_def nsp_def)
      then show ?thesis by simp
    qed
  qed
qed

lemma alt_heads:
  assumes pre: "eats_nsp (Cat pre)" and t: "nsp t" and w: "stops w"
  shows "heads_at w (ms True (Cat (pre @ tail)) (i, t @ w, cs))"
proof -
  from pre obtain L where L: "eats (Cat pre) L" "\<And>u s'. L u s' \<Longrightarrow> nsp u"
    unfolding eats_nsp_def by blast
  have "list_all (\<lambda>x. heads_at w (ms True (Cat tail) x)) (ms True (Cat pre) (i, t @ w, cs))"
    unfolding list_all_iff
  proof
    fix x assume x: "x \<in> set (ms True (Cat pre) (i, t @ w, cs))"
    obtain j s1 cs1 where x3: "x = (j, s1, cs1)" by (cases x) auto
    have "(j, s1, cs1) \<in> set (ms True (Cat pre) (i, t @ w, cs))" using x x3 by simp
    then obtain u where u: "t @ w = u @ s1" "L u s1"
      unfolding eatsD[OF L(1)] by blast
    then obtain r where r: "t = u @ r" "s1 = r @ w"
      using split_before_stop[OF u(1) L(2)[OF u(2)] w] by blast
    then have "nsp r" using t by (simp add: nsp_append)
    then show "heads_at w (ms True (Cat tail) x)"
      unfolding x3 r(2) using w by (rule tail_heads)
  qed
  then have "heads_at w (concat (map (ms True (Cat tail)) (ms True (Cat pre) (i, t @ w, cs))))"
    by (rule heads_at_concat)
  moreover have "ms True (Cat tail) = cat_all (map (ms True) tail)"
    by (rule ext) simp
  ultimately show ?thesis by (simp add: cat_all_append)
qed

lemma url_alts_heads:
  assumes "nsp t" "stops w"
  shows "heads_at w (ms True (Alt url_alts) (i, t @ w, cs))"
proof -
  have a: "url_alts =
     [Cat ((scheme @ [www_or_not] @ long_label) @ tail),
      Cat ((lit ''www.'' @ long_label) @ tail),
      Cat ((scheme @ [www_or_not] @ [Rep alnum 1 None]) @ tail),
      Cat ((lit ''www.'' @ [Rep alnum 1 None]) @ tail)]"
    by (simp add: url_alts_def)
  show ?thesis
    unfolding a ms.simps list.map alt_all.simps
    using alt_heads[OF eats_nsp_pre(1) assms, of i cs] alt_heads[OF eats_nsp_pre(2) assms, of i cs]
      alt_heads[OF eats_nsp_pre(3) assms, of i cs] alt_heads[OF eats_nsp_pre(4) assms, of i cs]
    by (intro heads_at_append) (simp_all add: heads_at_def)
qed

lemma url_group_first:
  assumes "url_shape t" "stops w"
  shows "\<exists>es. ms True (url_group k) (i, t @ w, cs) = (i + length t, w, cs[k - 1 := Some t]) # es"
proof -
  have "(i + length t, w, cs[k - 1 := Some t]) \<in> set (ms True (url_group k) (i, t @ w, cs))"
    unfolding in_url_group using assms(1) by blast
  then obtain e es where ees: "ms True (url_group k) (i, t @ w, cs) = e # es"
    by (cases "ms True (url_group k) (i, t @ w, cs)") auto
  obtain j s' cs' where e: "e = (j, s', cs')" by (cases e) auto
  have "heads_at w (ms True (Alt url_alts) (i, t @ w, cs))"
    by (rule url_alts_heads[OF url_shape_nsp[OF assms(1)] assms(2)])
  then have "heads_at w (map (\<lambda>(j, s', cs'). (j, s', cs'[k - 1 := Some (take (j - i) (t @ w))]))
                          (ms True (Alt url_alts) (i, t @ w, cs)))"
    by (rule heads_at_map) (auto split: prod.splits)
  then have "heads_at w (ms True (url_group k) (i, t @ w, cs))"
    by (simp add: url_group_def)
  then have "s' = w" using ees e by (simp add: heads_at_def)
  moreover have "(j, s', cs') \<in> set (ms True (url_group k) (i, t @ w, cs))" using ees e by simp
  ultimately obtain u where "t @ w = u @ w" "j = i + length u" "cs' = cs[k - 1 := Some u]"
    unfolding in_url_group by blast
  then show ?thesis using ees e \<open>s' = w\<close> by simp
qed

lemma url_group_none:
  assumes "stops w"
  shows "ms True (url_group k) (i, w, cs) = []"
proof (rule ccontr)
  assume "ms True (url_group k) (i, w, cs) \<noteq> []"
  then obtain j s' cs' where "(j, s', cs') \<in> set (ms True (url_group k) (i, w, cs))"
    unfolding nonempty_iff by auto
  then obtain u where u: "w = u @ s'" "url_shape u" unfolding in_url_group by blast
  then obtain c u' where "u = c # u'" "\<not> is_space c"
    using url_shape_nonempty[OF u(2)] url_shape_nsp[OF u(2)] by (cases u) (auto simp: nsp_def)
  then show False using assms u(1) by (simp add: stops_def)
qed

section \<open>Scanning a line\<close>

lemma trim_split:
  "\<exists>w1 w2. s = w1 @ trim s @ w2 \<and> list_all is_space w1 \<and> list_all is_space w2"
proof -
  define d where "d = dropWhile is_space s"
  have a: "s = takeWhile is_space s @ d" by (simp add: d_def)
  have "rev (dropWhile is_space (rev d)) @ rev (takeWhile is_space (rev d)) =
        rev (takeWhile is_space (rev d) @ dropWhile is_space (rev d))"
    by (simp only: rev_append)
  also have "\<dots> = d" by (simp only: takeWhile_dropWhile_id rev_rev_ident)
  finally have b: "d = trim s @ rev (takeWhile is_space (rev d))"
    by (simp add: trim_def d_def)
  have "list_all is_space (takeWhile is_space s)"
    by (simp add: list_all_iff) (meson set_takeWhileD)
  moreover have "list_all is_space (rev (takeWhile is_space (rev d)))"
    by (simp add: list_all_iff) (meson set_takeWhileD)
  moreover have "s = takeWhile is_space s @ trim s @ rev (takeWhile is_space (rev d))"
    using a b by simp
  ultimately show ?thesis by blast
qed

lemma spaces_stop: "list_all is_space w \<Longrightarrow> stops w"
  by (cases w) (simp_all add: stops_def)

lemma lineRegex_fields:
  "ignoreCase url_lineRegex = True" "pattern url_lineRegex = url_group 1"
  "replicate (groups url_lineRegex) None = [None]"
  by (simp_all add: url_lineRegex_def)

lemma scan_spaces: "list_all is_space w \<Longrightarrow> scan url_lineRegex i li w = []"
proof (induction w arbitrary: i li)
  case Nil
  then show ?case
    using url_group_none[of "[]" 1 i "[None]"]
    by (simp add: lineRegex_fields stops_def del: ms.simps)
next
  case (Cons c w)
  then have "stops (c # w)" by (simp add: stops_def)
  then show ?case
    using Cons url_group_none[of "c # w" 1 i "[None]"]
    by (simp add: lineRegex_fields del: ms.simps)
qed

lemma scan_skip:
  "i + length x \<le> li \<Longrightarrow> scan re i li (x @ y) = scan re (i + length x) li y"
proof (induction x arbitrary: i)
  case Nil
  then show ?case by simp
next
  case (Cons c x)
  then show ?case by (simp del: ms.simps)
qed

lemma scan_leading_spaces:
  assumes "list_all is_space w1" "y \<noteq> []"
  shows "scan url_lineRegex i i (w1 @ y) = scan url_lineRegex (i + length w1) (i + length w1) y"
  using assms(1)
proof (induction w1 arbitrary: i)
  case Nil
  then show ?case by simp
next
  case (Cons c w1)
  then have "stops (c # w1 @ y)" by (simp add: stops_def)
  then show ?case
    using Cons url_group_none[of "c # w1 @ y" 1 i "[None]"]
    by (simp add: lineRegex_fields del: ms.simps)
qed

lemma scan_finds_whole:
  assumes "url_shape t" "list_all is_space w1" "list_all is_space w2"
  shows "match_all url_lineRegex (w1 @ t @ w2) = [t]"
proof -
  obtain c t' where t: "t = c # t'" using url_shape_nonempty[OF assms(1)] by (cases t) auto
  define n where "n = length w1"
  obtain es where first: "ms True (url_group 1) (n, t @ w2, [None]) =
                            (n + length t, w2, [None][1 - 1 := Some t]) # es"
    using url_group_first[OF assms(1) spaces_stop[OF assms(3)]] by blast
  have "match_all url_lineRegex (w1 @ t @ w2) = scan url_lineRegex n n (t @ w2)"
    unfolding match_all_def n_def
    using scan_leading_spaces[OF assms(2), of "t @ w2" 0] t by simp
  also have "\<dots> = t # scan url_lineRegex (Suc n) (n + length t) (t' @ w2)"
    using first t by (simp add: lineRegex_fields del: ms.simps)
  also have "scan url_lineRegex (Suc n) (n + length t) (t' @ w2) =
             scan url_lineRegex (Suc n + length t') (n + length t) w2"
    by (rule scan_skip) (simp add: t)
  also have "\<dots> = []" by (rule scan_spaces[OF assms(3)])
  finally show ?thesis .
qed

lemma scan_matches_shape: "list_all url_shape (scan url_lineRegex i li s)"
proof (induction s arbitrary: i li)
  case Nil
  then show ?case
    using url_group_none[of "[]" 1 i "[None]"]
    by (simp add: lineRegex_fields stops_def del: ms.simps)
next
  case (Cons c s)
  show ?case
  proof (cases "ms True (url_group 1) (i, c # s, [None])")
    case Nil
    then show ?thesis using Cons by (simp add: lineRegex_fields del: ms.simps)
  next
    case (Cons e es)
    obtain j t cs where e: "e = (j, t, cs)" by (cases e) auto
    then have "(j, t, cs) \<in> set (ms True (url_group 1) (i, c # s, [None]))" using Cons by simp
    then obtain u where u: "c # s = u @ t" "j = i + length u" "url_shape u"
      unfolding in_url_group by blast
    then have "take (j - i) (c # s) = u" by simp
    then show ?thesis
      using Cons e u(3) Cons.IH by (simp add: lineRegex_fields del: ms.simps)
  qed
qed

section \<open>The claims\<close>

subsection \<open>C2: what isUrl accepts\<close>

text \<open>
  C2, as stated: for every string, \<^verbatim>\<open>isUrl\<close> holds exactly when the trimmed string
  matches the grammar of the specification's prose.  It fails: the host
  \<^verbatim>\<open>wwwfoo.com\<close> after \<^verbatim>\<open>https://\<close> fits the prose, and the pattern refuses a host that
  begins with \<^verbatim>\<open>www\<close> unless that is \<^verbatim>\<open>www.\<close> followed by a label and a dot.
\<close>

theorem isUrl_prose_grammar_counterexample:
  "spec_bare_url (trim (js ''https://wwwfoo.com/path'')) \<and>
   \<not> CheckIf_isUrl (js ''https://wwwfoo.com/path'')"
proof -
  have t: "trim (js ''https://wwwfoo.com/path'') = js ''https://wwwfoo.com/path''"
    by code_simp
  have p: "spec_prefix (js ''https://'')"
    by (simp add: spec_prefix_def is_scheme_def ci_def js_def)
  have l: "spec_label (js ''wwwfoo'')" "spec_label (js ''com'')"
    by (simp_all add: spec_label_def js_def cu_def is_alnum_def)
  have h: "spec_hostname (js ''wwwfoo.com'')"
    unfolding spec_hostname_def
    by (intro exI[of _ "[js ''wwwfoo'']"] exI[of _ "js ''com''"]) (simp add: l, simp add: js_def)
  have r: "2 \<le> length (js ''/path'')" "list_all (\<lambda>c. \<not> is_space c) (js ''/path'')"
    by (simp_all add: js_def cu_def is_space_def)
  have "spec_bare_url (js ''https://wwwfoo.com/path'')"
    unfolding spec_bare_url_def
    by (intro exI[of _ "js ''https://''"] exI[of _ "js ''wwwfoo.com''"] exI[of _ "js ''/path''"])
       (simp add: p h r, simp add: js_def)
  moreover have "\<not> CheckIf_isUrl (js ''https://wwwfoo.com/path'')"
    by code_simp
  ultimately show ?thesis by (simp add: t)
qed

text \<open>
  C2, amended: \<^verbatim>\<open>isUrl\<close> holds exactly when the trimmed string is a prefix, a first
  label, a dot and at least two further code units none of which is white space, up to the
  end of the string.  The prefix is \<^verbatim>\<open>www.\<close>, or \<^verbatim>\<open>http://\<close> or \<^verbatim>\<open>https://\<close> followed by
  \<^verbatim>\<open>www.\<close>, or \<^verbatim>\<open>http://\<close> or \<^verbatim>\<open>https://\<close> alone before a label that does not begin with
  \<^verbatim>\<open>www\<close> (all without regard to the case of the letters).  The label is made of ASCII
  letters, digits and hyphens, with a letter or digit at each end.  The same holds of the
  anchored pattern of \<^verbatim>\<open>DEFAULT_SETTINGS\<close> on any string, untrimmed.  In particular
  \<^verbatim>\<open>isUrl("https://example.com/path")\<close> is true.
\<close>

theorem isUrl_grammar:
  "(CheckIf_isUrl s \<longleftrightarrow> url_shape (trim s)) \<and>
   (test (regex DEFAULT_SETTINGS) t \<longleftrightarrow> url_shape t) \<and>
   CheckIf_isUrl (js ''https://example.com/path'')"
proof -
  have "CheckIf_isUrl (js ''https://example.com/path'')"
    by code_simp
  then show ?thesis
    by (simp add: CheckIf_isUrl_def DEFAULT_SETTINGS_def test_url_regex)
qed

theorem isUrl_grammar_witness:
  "CheckIf_isUrl (js ''https://example.com/path'') \<and>
   url_shape (trim (js ''https://example.com/path''))"
  using isUrl_grammar[of "js ''https://example.com/path''"] by blast

subsection \<open>C3: what isImage accepts\<close>



subsection \<open>C4: pasting the URL of an image\<close>

text \<open>
  C4, as stated: for a non-empty clipboard text that is both a URL and an image, both paste
  handlers insert the text unchanged and neither converts it.  \<^verbatim>\<open>onPaste\<close> inserts nothing:
  it returns before any call, so the list of its calls holds no \<^verbatim>\<open>replaceSelection\<close>.
\<close>

theorem paste_image_url_counterexample:
  "js ''https://example.com/photo.JPG'' \<noteq> [] \<and>
   CheckIf_isUrl (js ''https://example.com/photo.JPG'') \<and>
   CheckIf_isImage (js ''https://example.com/photo.JPG'') \<and>
   ReplaceSelection (js ''https://example.com/photo.JPG'') \<notin>
     set (onPaste CheckIf (Some DEFAULT_SETTINGS) True
            (Some \<lparr>files_length = 0, text_plain = Some (js ''https://example.com/photo.JPG'')\<rparr>))"
proof -
  have "js ''https://example.com/photo.JPG'' \<noteq> []" by (simp add: js_def)
  moreover have u: "CheckIf_isUrl (js ''https://example.com/photo.JPG'')" by code_simp
  moreover have i: "CheckIf_isImage (js ''https://example.com/photo.JPG'')" by code_simp
  moreover have "onPaste CheckIf (Some DEFAULT_SETTINGS) True
            (Some \<lparr>files_length = 0, text_plain = Some (js ''https://example.com/photo.JPG'')\<rparr>) = []"
    using u i by (simp add: onPaste_def CheckIf_def)
  ultimately show ?thesis by simp
qed

text \<open>
  C4, amended: for a non-empty clipboard text that the classifier takes for a URL and for
  an image, \<^verbatim>\<open>manualPasteAndEnhanceURL\<close> makes one call, \<^verbatim>\<open>replaceSelection\<close> with the
  clipboard text unchanged, and \<^verbatim>\<open>onPaste\<close> makes no call at all: it neither stops nor
  prevents the paste event, which leaves the insertion to the editor's default paste.
  Neither handler invokes the conversion to a card block.  This holds for any classifier,
  settings, connectivity and number of clipboard files.
\<close>

theorem paste_image_url:
  assumes "t \<noteq> []" "isUrl ck t" "isImage ck t"
  shows "manualPasteAndEnhanceURL ck onLine (Some t) = [ReplaceSelection t] \<and>
         onPaste ck settings onLine (Some \<lparr>files_length = n, text_plain = Some t\<rparr>) = []"
  using assms by (simp add: manualPasteAndEnhanceURL_def onPaste_def)

theorem paste_image_url_witness:
  "manualPasteAndEnhanceURL CheckIf True (Some (js ''https://example.com/photo.JPG'')) =
     [ReplaceSelection (js ''https://example.com/photo.JPG'')] \<and>
   onPaste CheckIf (Some DEFAULT_SETTINGS) True
     (Some \<lparr>files_length = 0, text_plain = Some (js ''https://example.com/photo.JPG'')\<rparr>) = []"
proof -
  have a: "js ''https://example.com/photo.JPG'' \<noteq> []" by (simp add: js_def)
  have u: "isUrl CheckIf (js ''https://example.com/photo.JPG'')"
    unfolding CheckIf_def by (simp, code_simp)
  have i: "isImage CheckIf (js ''https://example.com/photo.JPG'')"
    unfolding CheckIf_def by (simp, code_simp)
  show ?thesis by (rule paste_image_url[OF a u i])
qed

subsection \<open>C5: what isLinkedUrl accepts\<close>

text \<open>
  C5, as stated: for every string, \<^verbatim>\<open>isLinkedUrl\<close> holds exactly when the trimmed string is
  \<^verbatim>\<open>[label](URL)\<close> with a URL of the prose grammar and a label without unescaped square
  brackets.  It fails for a label with an escaped bracket: the pattern's class
  \<^verbatim>\<open>[^[\]]\<close> refuses every square bracket, escaped or not.
\<close>

theorem isLinkedUrl_prose_counterexample:
  "spec_linked_url (trim (js ''[a'' @ [0x5C] @ js '']b](https://example.com/path)'')) \<and>
   \<not> CheckIf_isLinkedUrl (js ''[a'' @ [0x5C] @ js '']b](https://example.com/path)'')"
proof -
  have t: "trim (js ''[a'' @ [0x5C] @ js '']b](https://example.com/path)'') =
           cu CHR ''['' # (js ''a'' @ [0x5C] @ js '']b'') @ js ''](''
             @ js ''https://example.com/path'' @ [cu CHR '')'']"
    by code_simp
  have l: "no_unescaped_brackets (js ''a'' @ [0x5C] @ js '']b'')"
    by (simp add: js_def cu_def)
  have p: "spec_prefix (js ''https://'')"
    by (simp add: spec_prefix_def is_scheme_def ci_def js_def)
  have ls: "spec_label (js ''example'')" "spec_label (js ''com'')"
    by (simp_all add: spec_label_def js_def cu_def is_alnum_def)
  have h: "spec_hostname (js ''example.com'')"
    unfolding spec_hostname_def
    by (intro exI[of _ "[js ''example'']"] exI[of _ "js ''com''"]) (simp add: ls, simp add: js_def)
  have r: "2 \<le> length (js ''/path'')" "list_all (\<lambda>c. \<not> is_space c) (js ''/path'')"
    by (simp_all add: js_def cu_def is_space_def)
  have u: "spec_bare_url (js ''https://example.com/path'')"
    unfolding spec_bare_url_def
    by (intro exI[of _ "js ''https://''"] exI[of _ "js ''example.com''"] exI[of _ "js ''/path''"])
       (simp add: p h r, simp add: js_def)
  have "spec_linked_url (trim (js ''[a'' @ [0x5C] @ js '']b](https://example.com/path)''))"
    unfolding t spec_linked_url_def using l u by blast
  moreover have "\<not> CheckIf_isLinkedUrl (js ''[a'' @ [0x5C] @ js '']b](https://example.com/path)'')"
    by code_simp
  ultimately show ?thesis ..
qed

text \<open>
  C5, amended: for every string, \<^verbatim>\<open>isLinkedUrl\<close> holds exactly when the trimmed string is
  \<^verbatim>\<open>[\<close>, a label, \<^verbatim>\<open>](\<close>, a URL and \<^verbatim>\<open>)\<close>, where the label holds no square bracket at all
  (escaped or not) and the URL has the shape that \<^verbatim>\<open>isUrl\<close> accepts (C2 as amended).  The
  same holds of the anchored link pattern of \<^verbatim>\<open>DEFAULT_SETTINGS\<close> on any string,
  untrimmed.  In particular \<^verbatim>\<open>isLinkedUrl("[Example](https://example.com)")\<close> is true.
\<close>

theorem isLinkedUrl_grammar:
  "(CheckIf_isLinkedUrl s \<longleftrightarrow>
      (\<exists>label url. trim s = cu CHR ''['' # label @ js ''](''  @ url @ [cu CHR '')''] \<and>
          no_bracket label \<and> url_shape url)) \<and>
   (test (linkRegex DEFAULT_SETTINGS) t \<longleftrightarrow>
      (\<exists>label url. t = cu CHR ''['' # label @ js ''](''  @ url @ [cu CHR '')''] \<and>
          no_bracket label \<and> url_shape url)) \<and>
   CheckIf_isLinkedUrl (js ''[Example](https://example.com)'')"
proof -
  have "CheckIf_isLinkedUrl (js ''[Example](https://example.com)'')"
    by code_simp
  then show ?thesis
    by (simp add: CheckIf_isLinkedUrl_def DEFAULT_SETTINGS_def test_url_linkRegex)
qed

theorem isLinkedUrl_grammar_witness:
  "CheckIf_isLinkedUrl (js ''[Example](https://example.com)'') \<and>
   (\<exists>label url. trim (js ''[Example](https://example.com)'') =
        cu CHR ''['' # label @ js ''](''  @ url @ [cu CHR '')''] \<and> no_bracket label \<and> url_shape url)"
  using isLinkedUrl_grammar[of "js ''[Example](https://example.com)''"] by blast

subsection \<open>C6: the URL of a link\<close>

text \<open>
  C6: on a string \<^verbatim>\<open>[label](URL)\<close>, with a label free of square brackets and a URL of the
  shape the patterns accept, \<^verbatim>\<open>getUrlFromLink\<close> with the link pattern of
  \<^verbatim>\<open>DEFAULT_SETTINGS\<close> returns exactly the URL between the parentheses; every string that
  the link pattern matches is of that form, in one way only; and on
  \<^verbatim>\<open>[Example](https://example.com)\<close> the result is \<^verbatim>\<open>https://example.com\<close>.
\<close>

theorem getUrlFromLink_extracts:
  "(no_bracket label \<and> url_shape url \<longrightarrow>
      getUrlFromLink (linkRegex DEFAULT_SETTINGS)
        (cu CHR ''['' # label @ js ''](''  @ url @ [cu CHR '')'']) = Some url) \<and>
   (test (linkRegex DEFAULT_SETTINGS) t \<longrightarrow>
      (\<exists>label url. t = cu CHR ''['' # label @ js ''](''  @ url @ [cu CHR '')''] \<and>
         no_bracket label \<and> url_shape url \<and>
         getUrlFromLink (linkRegex DEFAULT_SETTINGS) t = Some url)) \<and>
   getUrlFromLink (linkRegex DEFAULT_SETTINGS) (js ''[Example](https://example.com)'') =
     Some (js ''https://example.com'')"
proof (intro conjI impI)
  assume "no_bracket label \<and> url_shape url"
  then show "getUrlFromLink (linkRegex DEFAULT_SETTINGS)
        (cu CHR ''['' # label @ js ''](''  @ url @ [cu CHR '')'']) = Some url"
    using getUrlFromLink_link by (simp add: DEFAULT_SETTINGS_def)
next
  assume "test (linkRegex DEFAULT_SETTINGS) t"
  then obtain label url where a: "t = cu CHR ''['' # label @ js ''](''  @ url @ [cu CHR '')'']"
      "no_bracket label" "url_shape url"
    unfolding DEFAULT_SETTINGS_def using test_url_linkRegex[of t] by auto
  then have "getUrlFromLink (linkRegex DEFAULT_SETTINGS) t = Some url"
    using getUrlFromLink_link by (simp add: DEFAULT_SETTINGS_def)
  then show "\<exists>label url. t = cu CHR ''['' # label @ js ''](''  @ url @ [cu CHR '')''] \<and>
         no_bracket label \<and> url_shape url \<and>
         getUrlFromLink (linkRegex DEFAULT_SETTINGS) t = Some url"
    using a by blast
next
  show "getUrlFromLink (linkRegex DEFAULT_SETTINGS) (js ''[Example](https://example.com)'') =
     Some (js ''https://example.com'')"
    by code_simp
qed

theorem getUrlFromLink_extracts_witness:
  "test (linkRegex DEFAULT_SETTINGS) (js ''[Example](https://example.com)'') \<and>
   (\<exists>label url. js ''[Example](https://example.com)'' =
        cu CHR ''['' # label @ js ''](''  @ url @ [cu CHR '')''] \<and>
      no_bracket label \<and> url_shape url \<and>
      getUrlFromLink (linkRegex DEFAULT_SETTINGS) (js ''[Example](https://example.com)'') = Some url)"
proof -
  have a: "test (linkRegex DEFAULT_SETTINGS) (js ''[Example](https://example.com)'')"
    by code_simp
  then show ?thesis
    using getUrlFromLink_extracts[of label url "js ''[Example](https://example.com)''"] by blast
qed

subsection \<open>C7: the anchored pattern and the line scan\<close>

text \<open>
  C7: a string that \<^verbatim>\<open>isUrl\<close> accepts is found whole by the line-scan pattern, as the only
  match (its trimmed text; for the anchored pattern itself, the string); every match the
  line scan finds in any text is accepted by the anchored pattern; and in
  \<^verbatim>\<open>see https://example.com\<close> the anchored predicate answers no while the line scan finds
  exactly one match, \<^verbatim>\<open>https://example.com\<close>.
\<close>

theorem line_scan_same_grammar:
  "(CheckIf_isUrl s \<longrightarrow> match_all (lineRegex DEFAULT_SETTINGS) s = [trim s]) \<and>
   (test (regex DEFAULT_SETTINGS) t \<longrightarrow> match_all (lineRegex DEFAULT_SETTINGS) t = [t]) \<and>
   list_all (test (regex DEFAULT_SETTINGS)) (match_all (lineRegex DEFAULT_SETTINGS) x) \<and>
   \<not> CheckIf_isUrl (js ''see https://example.com'') \<and>
   match_all (lineRegex DEFAULT_SETTINGS) (js ''see https://example.com'') =
     [js ''https://example.com'']"
proof (intro conjI impI)
  assume "CheckIf_isUrl s"
  then have u: "url_shape (trim s)"
    by (simp add: CheckIf_isUrl_def DEFAULT_SETTINGS_def test_url_regex)
  obtain w1 w2 where w: "s = w1 @ trim s @ w2" "list_all is_space w1" "list_all is_space w2"
    using trim_split by blast
  have "match_all url_lineRegex (w1 @ trim s @ w2) = [trim s]"
    by (rule scan_finds_whole[OF u w(2,3)])
  then show "match_all (lineRegex DEFAULT_SETTINGS) s = [trim s]"
    using w(1) by (simp add: DEFAULT_SETTINGS_def)
next
  assume "test (regex DEFAULT_SETTINGS) t"
  then have "url_shape t" by (simp add: DEFAULT_SETTINGS_def test_url_regex)
  then have "match_all url_lineRegex ([] @ t @ []) = [t]"
    by (rule scan_finds_whole) simp_all
  then show "match_all (lineRegex DEFAULT_SETTINGS) t = [t]"
    by (simp add: DEFAULT_SETTINGS_def)
next
  have "list_all url_shape (match_all url_lineRegex x)"
    unfolding match_all_def by (rule scan_matches_shape)
  then show "list_all (test (regex DEFAULT_SETTINGS)) (match_all (lineRegex DEFAULT_SETTINGS) x)"
    by (simp add: DEFAULT_SETTINGS_def list_all_iff test_url_regex)
next
  show "\<not> CheckIf_isUrl (js ''see https://example.com'')"
    by code_simp
next
  show "match_all (lineRegex DEFAULT_SETTINGS) (js ''see https://example.com'') =
     [js ''https://example.com'']"
    by code_simp
qed

theorem line_scan_same_grammar_witness:
  "CheckIf_isUrl (js '' https://example.com/path '') \<and>
   match_all (lineRegex DEFAULT_SETTINGS) (js '' https://example.com/path '') =
     [trim (js '' https://example.com/path '')] \<and>
   trim (js '' https://example.com/path '') = js ''https://example.com/path''"
proof -
  have a: "CheckIf_isUrl (js '' https://example.com/path '')"
    by code_simp
  have b: "trim (js '' https://example.com/path '') = js ''https://example.com/path''"
    by code_simp
  show ?thesis
    using a b line_scan_same_grammar[of "js '' https://example.com/path ''"] by blast
qed

subsection \<open>C8: the classifiers always answer\<close>



subsection \<open>C9: a selection that is no URL\<close>

text \<open>
  C9: when the trimmed selection is neither a URL nor a linked URL for the classifier,
  \<^verbatim>\<open>enhanceSelectedURL\<close> only constructs the code block generator: it requests no
  conversion, makes no call on the editor, and returns normally.
\<close>

theorem enhanceSelectedURL_no_match:
  assumes "\<not> isUrl ck (trim (case selected of None \<Rightarrow> [] | Some t \<Rightarrow> t))"
    and "\<not> isLinkedUrl ck (trim (case selected of None \<Rightarrow> [] | Some t \<Rightarrow> t))"
  shows "enhanceSelectedURL ck urlRegex selected = [NewCodeBlockGenerator]"
  using assms by (simp add: enhanceSelectedURL_def Let_def)

theorem enhanceSelectedURL_no_match_witness:
  "\<not> CheckIf_isUrl (trim (js '' plain words '')) \<and>
   \<not> CheckIf_isLinkedUrl (trim (js '' plain words '')) \<and>
   enhanceSelectedURL CheckIf (linkRegex DEFAULT_SETTINGS) (Some (js '' plain words '')) =
     [NewCodeBlockGenerator]"
proof -
  have a: "\<not> isUrl CheckIf (trim (case Some (js '' plain words '') of None \<Rightarrow> [] | Some t \<Rightarrow> t))"
    unfolding CheckIf_def by (simp, code_simp)
  have b: "\<not> isLinkedUrl CheckIf (trim (case Some (js '' plain words '') of None \<Rightarrow> [] | Some t \<Rightarrow> t))"
    unfolding CheckIf_def by (simp, code_simp)
  show ?thesis
    using a b enhanceSelectedURL_no_match[OF a b, of "linkRegex DEFAULT_SETTINGS"]
    by (simp add: CheckIf_def)
qed

subsection \<open>C10: no link, no URL\<close>

text \<open>
  C10: when the pattern does not match the input, \<^verbatim>\<open>getUrlFromLink\<close> returns the empty
  string; so it does when the pattern has no capturing group, whether it matches or not
  (the result array then has one entry); and so it does for the link pattern of
  \<^verbatim>\<open>DEFAULT_SETTINGS\<close> on every string that is not a link.  In these cases the result is a
  string, never \<^verbatim>\<open>undefined\<close>.
\<close>

theorem getUrlFromLink_no_match:
  "(exec urlRegex link = None \<longrightarrow> getUrlFromLink urlRegex link = Some []) \<and>
   (groups urlRegex = 0 \<longrightarrow> getUrlFromLink urlRegex link = Some []) \<and>
   (\<not> test (linkRegex DEFAULT_SETTINGS) link \<longrightarrow>
      getUrlFromLink (linkRegex DEFAULT_SETTINGS) link = Some [])"
  using getUrlFromLink_no_groups[of urlRegex link]
  by (simp add: getUrlFromLink_def test_def)

theorem getUrlFromLink_no_match_witness:
  "\<not> test (linkRegex DEFAULT_SETTINGS) (js ''see https://example.com'') \<and>
   getUrlFromLink (linkRegex DEFAULT_SETTINGS) (js ''see https://example.com'') = Some [] \<and>
   exec \<lparr>pattern = Cat (lit ''see''), groups = 0, ignoreCase = True, global = False\<rparr>
        (js ''see https://example.com'') = Some [Some (js ''see'')] \<and>
   getUrlFromLink \<lparr>pattern = Cat (lit ''see''), groups = 0, ignoreCase = True, global = False\<rparr>
        (js ''see https://example.com'') = Some []"
proof -
  have a: "\<not> test (linkRegex DEFAULT_SETTINGS) (js ''see https://example.com'')"
    by code_simp
  have b: "groups \<lparr>pattern = Cat (lit ''see''), groups = 0, ignoreCase = True, global = False\<rparr> = 0"
    by simp
  have c: "exec \<lparr>pattern = Cat (lit ''see''), groups = 0, ignoreCase = True, global = False\<rparr>
        (js ''see https://example.com'') = Some [Some (js ''see'')]"
    by code_simp
  show ?thesis
    using a b c
      getUrlFromLink_no_match[of "linkRegex DEFAULT_SETTINGS" "js ''see https://example.com''"]
      getUrlFromLink_no_match[of "\<lparr>pattern = Cat (lit ''see''), groups = 0, ignoreCase = True, global = False\<rparr>"
         "js ''see https://example.com''"]
    by blast
qed

end
